theory Spec2Isabelle
  imports Main "HOL-Library.AList" "HOL-Library.Sublist"
begin

section \<open>JavaScript values and objects\<close>

text \<open>
  The values that the tree and row-store code of \<^verbatim>\<open>hgrid.js\<close> reads and writes:
  \<^verbatim>\<open>null\<close>, booleans, numbers (ids and depths are integers), strings and
  references to node objects. \<^verbatim>\<open>undefined\<close> is the result of reading an absent
  property (\<open>None\<close>); jQuery's \<^verbatim>\<open>$.extend\<close> skips properties whose value is
  \<^verbatim>\<open>undefined\<close>, so a property holding \<^verbatim>\<open>undefined\<close> and an absent
  property are the same to every function below.
\<close>

datatype jsval = Null | Bool bool | Num int | Str string | Ref nat

text \<open>A plain object is its list of properties; a property name occurs once.\<close>

type_synonym obj = "(string \<times> jsval) list"

definition js_get :: "obj \<Rightarrow> string \<Rightarrow> jsval option" where
  "js_get ob k = map_of ob k"

definition js_set :: "string \<Rightarrow> jsval \<Rightarrow> obj \<Rightarrow> obj" where
  "js_set k v ob = AList.update k v ob"

definition js_delete :: "string \<Rightarrow> obj \<Rightarrow> obj" where
  "js_delete k ob = AList.delete k ob"

text \<open>JavaScript truthiness, as tested by \<^verbatim>\<open>if (data.id)\<close> or \<^verbatim>\<open>!item._hidden\<close>.\<close>

fun truthy :: "jsval option \<Rightarrow> bool" where
  "truthy None = False"
| "truthy (Some Null) = False"
| "truthy (Some (Bool b)) = b"
| "truthy (Some (Num n)) = (n \<noteq> 0)"
| "truthy (Some (Str s)) = (s \<noteq> [])"
| "truthy (Some (Ref a)) = True"

text \<open>\<^verbatim>\<open>x == null\<close>: true of \<^verbatim>\<open>null\<close> and \<^verbatim>\<open>undefined\<close> only.\<close>

fun eq_null :: "jsval option \<Rightarrow> bool" where
  "eq_null None = True"
| "eq_null (Some Null) = True"
| "eq_null (Some v) = False"

text \<open>
  \<^verbatim>\<open>$.extend(target, src)\<close>, shallow: every property of \<open>src\<close> is written onto
  \<open>target\<close>, so \<open>src\<close> wins where both define a name.
\<close>

definition jq_extend :: "obj \<Rightarrow> obj \<Rightarrow> obj" where
  "jq_extend target src = AList.merge target src"

definition ROOT_ID :: jsval where
  "ROOT_ID = Str ''root''"

definition FILE :: jsval where
  "FILE = Str ''file''"

definition FOLDER :: jsval where
  "FOLDER = Str ''folder''"

datatype error = HGridError string | TypeError | InvalidId

section \<open>The row store\<close>

text \<open>
  Modelled from the spec: the row store is the external \<^verbatim>\<open>Slick.Data.DataView\<close>,
  which is not part of the repository. It is the array of items in row order, with the
  operations of the store contract: lookup by id and by index, index of an id,
  insert at an index, delete by id (which throws on an unknown id), full replace.
\<close>

type_synonym dataview = "obj list"

fun idx_of :: "jsval \<Rightarrow> dataview \<Rightarrow> nat option" where
  "idx_of k [] = None"
| "idx_of k (it # its) =
     (if js_get it ''id'' = Some k then Some 0 else map_option Suc (idx_of k its))"

definition getIdxById :: "dataview \<Rightarrow> jsval option \<Rightarrow> nat option" where
  "getIdxById dv k = (case k of None \<Rightarrow> None | Some v \<Rightarrow> idx_of v dv)"

definition getItemById :: "dataview \<Rightarrow> jsval option \<Rightarrow> obj option" where
  "getItemById dv k = map_option (\<lambda>i. dv ! i) (getIdxById dv k)"

definition getItemByIdx :: "dataview \<Rightarrow> nat \<Rightarrow> obj option" where
  "getItemByIdx dv i = (if i < length dv then Some (dv ! i) else None)"

definition insertItem :: "dataview \<Rightarrow> nat \<Rightarrow> obj \<Rightarrow> dataview" where
  "insertItem dv i item = take i dv @ item # drop i dv"

definition deleteItem :: "dataview \<Rightarrow> jsval option \<Rightarrow> error + dataview" where
  "deleteItem dv k =
     (case getIdxById dv k of
        None \<Rightarrow> Inl InvalidId
      | Some i \<Rightarrow> Inr (take i dv @ drop (Suc i) dv))"

definition setItems :: "dataview \<Rightarrow> obj list \<Rightarrow> dataview" where
  "setItems dv its = its"

text \<open>\<^verbatim>\<open>collapseFilter\<close>: the filter the grid installs on the store.\<close>

definition collapseFilter :: "obj \<Rightarrow> bool" where
  "collapseFilter item = (\<not> truthy (js_get item ''_hidden''))"

definition visibleRows :: "dataview \<Rightarrow> obj list" where
  "visibleRows dv = filter collapseFilter dv"

section \<open>Tree and Leaf\<close>

text \<open>
  A node object: \<open>addr\<close> is the identity of the object (what \<^verbatim>\<open>_node: this\<close>
  stores in an item), \<open>cls\<close> its class. \<open>depth\<close> is \<^verbatim>\<open>null\<close> until a parent
  sets it. \<open>dataView\<close> is \<^verbatim>\<open>null\<close> (\<open>False\<close>) or the row store of the grid.
  \<open>data\<close> is \<^verbatim>\<open>undefined\<close> for a root. The \<^verbatim>\<open>children\<close> property of a data
  object is the one property whose value is an array of nested objects; it is read only by
  \<^verbatim>\<open>Tree.fromObject\<close> and is kept apart (see \<open>hobj\<close>).
\<close>

datatype cls = TreeC | LeafC

record nodeinfo =
  addr :: nat
  cls :: cls
  nid :: jsval
  parentID :: jsval
  depth :: "nat option"
  data :: "obj option"
  dataView :: bool

datatype node = Node (info: nodeinfo) (children: "node list")

text \<open>The module-level \<^verbatim>\<open>idCounter\<close>, and the next free object identity.\<close>

record counters =
  idCounter :: nat
  nextAddr :: nat

definition getUID :: "counters \<Rightarrow> nat \<times> counters" where
  "getUID st = (idCounter st, st\<lparr>idCounter := idCounter st + 1\<rparr>)"

text \<open>\<^verbatim>\<open>if (data.id) { this.id = data.id; } else { this.id = getUID(); }\<close>\<close>

definition chooseId :: "obj \<Rightarrow> counters \<Rightarrow> jsval \<times> counters" where
  "chooseId d st =
     (case js_get d ''id'' of
        Some v \<Rightarrow>
          (if truthy (Some v) then (v, st)
           else (let (u, st') = getUID st in (Num (int u), st')))
      | None \<Rightarrow> (let (u, st') = getUID st in (Num (int u), st')))"

text \<open>\<^verbatim>\<open>new Tree()\<close> (a root) and \<^verbatim>\<open>new Tree(data)\<close>.\<close>

definition newTree :: "obj option \<Rightarrow> counters \<Rightarrow> node \<times> counters" where
  "newTree d st =
     (case d of
        None \<Rightarrow>
          (Node \<lparr>addr = nextAddr st, cls = TreeC, nid = ROOT_ID, parentID = Null,
                 depth = Some 0, data = None, dataView = True\<rparr> [],
           st\<lparr>nextAddr := nextAddr st + 1\<rparr>)
      | Some dt \<Rightarrow>
          (let (i, st') = chooseId dt st in
           (Node \<lparr>addr = nextAddr st', cls = TreeC, nid = i, parentID = Null,
                  depth = None, data = Some dt, dataView = False\<rparr> [],
            st'\<lparr>nextAddr := nextAddr st' + 1\<rparr>)))"

definition newLeaf :: "obj \<Rightarrow> counters \<Rightarrow> node \<times> counters" where
  "newLeaf dt st =
     (let (i, st') = chooseId dt st in
      (Node \<lparr>addr = nextAddr st', cls = LeafC, nid = i, parentID = Null,
             depth = None, data = Some dt, dataView = False\<rparr> [],
       st'\<lparr>nextAddr := nextAddr st' + 1\<rparr>))"

text \<open>\<^verbatim>\<open>this.depth + 1\<close>; in JavaScript \<^verbatim>\<open>null + 1\<close> is \<open>1\<close>.\<close>

definition depth_plus1 :: "nat option \<Rightarrow> nat" where
  "depth_plus1 d = (case d of None \<Rightarrow> 1 | Some n \<Rightarrow> n + 1)"

text \<open>
  The first four statements of \<^verbatim>\<open>Tree.prototype.add\<close>, which run whether or not
  \<^verbatim>\<open>updateDataView\<close> is set: the component gets its parent's id, depth and store,
  and is pushed onto the children.
\<close>

definition adopt :: "node \<Rightarrow> node \<Rightarrow> node" where
  "adopt this component =
     Node ((info component)\<lparr>parentID := nid (info this),
                             depth := Some (depth_plus1 (depth (info this))),
                             dataView := dataView (info this)\<rparr>)
          (children component)"

definition attach :: "node \<Rightarrow> node \<Rightarrow> node" where
  "attach this component = Node (info this) (children this @ [adopt this component])"

text \<open>The item of a node: the structural fields first, the node's data merged over them.\<close>

definition depth_val :: "nat option \<Rightarrow> jsval" where
  "depth_val d = (case d of None \<Rightarrow> Null | Some n \<Rightarrow> Num (int n))"

definition structural :: "node \<Rightarrow> obj" where
  "structural n =
     [(''id'', nid (info n)), (''parentID'', parentID (info n)),
      (''_node'', Ref (addr (info n))), (''depth'', depth_val (depth (info n)))]"

definition toItem :: "node \<Rightarrow> obj" where
  "toItem n =
     (case data (info n) of
        None \<Rightarrow> jq_extend [] (structural n)
      | Some d \<Rightarrow> jq_extend (jq_extend [] (structural n)) d)"

text \<open>
  \<^verbatim>\<open>toData(result)\<close> with the array \<open>result\<close> given: what the array holds afterwards.
  A Tree pushes its own item unless its depth is \<open>0\<close>, then lets each child push;
  a Leaf pushes its item.
\<close>

fun toData_into :: "node \<Rightarrow> obj list \<Rightarrow> obj list"
and toData_children :: "node list \<Rightarrow> obj list \<Rightarrow> obj list" where
  "toData_into (Node i cs) result =
     (case cls i of
        LeafC \<Rightarrow> result @ [toItem (Node i cs)]
      | TreeC \<Rightarrow>
          toData_children cs
            (if depth i \<noteq> Some 0 then result @ [toItem (Node i cs)] else result))"
| "toData_children [] result = result"
| "toData_children (c # cs) result = toData_children cs (toData_into c result)"

text \<open>\<^verbatim>\<open>toData()\<close> without argument: a Tree returns the array, a Leaf its item.\<close>

datatype projection = Rows "obj list" | Row obj

definition toData :: "node \<Rightarrow> projection" where
  "toData n =
     (case cls (info n) of
        TreeC \<Rightarrow> Rows (toData_into n [])
      | LeafC \<Rightarrow> Row (toItem n))"

section \<open>Building a tree from nested data\<close>

text \<open>
  The nested input of \<^verbatim>\<open>Tree.fromObject\<close>: an object with its scalar properties and,
  apart, its \<^verbatim>\<open>children\<close> array when it has one. The argument \<open>data\<close> is either an
  array of such objects or a single one.
\<close>

datatype hobj = HObj (props: obj) (kids: "hobj list option")

datatype hdata = DArr "hobj list" | DObj hobj

text \<open>
  \<^verbatim>\<open>Tree.fromObject(data, parent)\<close> and its loop over \<open>children\<close>. With an object
  and no parent, \<^verbatim>\<open>parent.depth\<close> raises a TypeError. The loop calls
  \<^verbatim>\<open>tree.add(x)\<close> without \<^verbatim>\<open>updateDataView\<close>, which is \<open>attach\<close>.
\<close>

function (sequential) fromObject :: "hdata \<Rightarrow> node option \<Rightarrow> counters \<Rightarrow> error + (node \<times> counters)"
and fromObject_loop :: "hobj list \<Rightarrow> node \<Rightarrow> counters \<Rightarrow> error + (node \<times> counters)" where
  "fromObject (DArr cs) parent st =
     (let (tree, st') = newTree None st in fromObject_loop cs tree st')"
| "fromObject (DObj (HObj p ks)) parent st =
     (case parent of
        None \<Rightarrow> Inl TypeError
      | Some par \<Rightarrow>
          (let (tree, st') = newTree (Some p) st;
               tree' = Node ((info tree)\<lparr>depth := Some (depth_plus1 (depth (info par)))\<rparr>)
                            (children tree)
           in fromObject_loop (case ks of None \<Rightarrow> [] | Some cs \<Rightarrow> cs) tree' st'))"
| "fromObject_loop [] tree st = Inr (tree, st)"
| "fromObject_loop (child # cs) tree st =
     (if js_get (props child) ''kind'' = Some FILE then
        (let (leaf, st') = newLeaf (props child) st
         in fromObject_loop cs (attach tree leaf) st')
      else
        (case fromObject (DObj child) (Some tree) st of
           Inl e \<Rightarrow> Inl e
         | Inr (subtree, st') \<Rightarrow> fromObject_loop cs (attach tree subtree) st'))"
  by pat_completeness auto

termination
  by (relation "measure (\<lambda>x. case x of
                   Inl (d, parent, st) \<Rightarrow>
                     (case d of DArr cs \<Rightarrow> 2 * size_list size cs + 2 | DObj h \<Rightarrow> 2 * size h)
                 | Inr (cs, tree, st) \<Rightarrow> 2 * size_list size cs + 1)")
     (auto split: option.splits)

section \<open>Synchronising the row store\<close>

text \<open>
  \<^verbatim>\<open>computeAddIdx\<close>: one past the index of the item whose id is the new item's
  \<open>parentID\<close>, and \<open>0\<close> when the store has no such item.
\<close>

definition computeAddIdx :: "obj \<Rightarrow> dataview \<Rightarrow> nat" where
  "computeAddIdx item dv =
     (case getItemById dv (js_get item ''parentID'') of
        Some parent \<Rightarrow>
          (case getIdxById dv (js_get parent ''id'') of Some i \<Rightarrow> i + 1 | None \<Rightarrow> 0)
      | None \<Rightarrow> 0)"

fun insertRows :: "obj list \<Rightarrow> dataview \<Rightarrow> dataview" where
  "insertRows [] dv = dv"
| "insertRows (datum # ds) dv = insertRows ds (insertItem dv (computeAddIdx datum dv) datum)"

text \<open>
  \<^verbatim>\<open>Tree.prototype.insertIntoDataView\<close>. Reading the store of a node whose
  \<open>dataView\<close> is \<^verbatim>\<open>null\<close> raises a TypeError.
\<close>

definition insertIntoDataView :: "node \<Rightarrow> node \<Rightarrow> dataview \<Rightarrow> error + dataview" where
  "insertIntoDataView this component dv =
     (case toData component of
        Rows ds \<Rightarrow>
          (if ds = [] then Inr dv
           else if dataView (info this) then Inr (insertRows ds dv)
           else Inl TypeError)
      | Row d \<Rightarrow>
          (if dataView (info this) then Inr (insertItem dv (computeAddIdx d dv) d)
           else Inl TypeError))"

text \<open>\<^verbatim>\<open>Tree.prototype.add\<close>; a Leaf has no such method.\<close>

definition add :: "node \<Rightarrow> node \<Rightarrow> bool \<Rightarrow> dataview \<Rightarrow> error + (node \<times> dataview)" where
  "add this component updateDataView dv =
     (case cls (info this) of
        LeafC \<Rightarrow> Inl TypeError
      | TreeC \<Rightarrow>
          (let this' = attach this component in
           if updateDataView then
             (case insertIntoDataView this' (adopt this component) dv of
                Inl e \<Rightarrow> Inl e
              | Inr dv' \<Rightarrow> Inr (this', dv'))
           else Inr (this', dv)))"

text \<open>
  \<^verbatim>\<open>ensureDataView(dataView)\<close>: the argument is the store (\<open>True\<close>) or is missing.
\<close>

fun ensureDataView :: "node \<Rightarrow> bool \<Rightarrow> node" where
  "ensureDataView (Node i cs) dv =
     (let d = (if \<not> dv then dataView i else dv)
      in Node (i\<lparr>dataView := d\<rparr>) (map (\<lambda>c. ensureDataView c d) cs))"

definition updateDataView :: "node \<Rightarrow> dataview \<Rightarrow> error + (node \<times> dataview)" where
  "updateDataView this dv =
     (case cls (info this) of
        LeafC \<Rightarrow> Inl TypeError
      | TreeC \<Rightarrow>
          (if \<not> dataView (info this) then
             Inl (HGridError
               ''Tree does not have a DataView. updateDataView must be called on a root node.'')
           else
             (let this' = ensureDataView this False
              in Inr (this', setItems dv (toData_into this' [])))))"

section \<open>Collapse and expand\<close>

text \<open>
  \<^verbatim>\<open>getItem\<close> yields the node's item object in the store, or \<^verbatim>\<open>undefined\<close>.
  The object is named by its index in the store; the flag assignments below write to it
  in place.
\<close>

definition getItem :: "node \<Rightarrow> dataview \<Rightarrow> error + nat option" where
  "getItem this dv =
     (if dataView (info this) then Inr (getIdxById dv (Some (nid (info this))))
      else Inl TypeError)"

definition setProps :: "nat \<Rightarrow> (obj \<Rightarrow> obj) \<Rightarrow> dataview \<Rightarrow> dataview" where
  "setProps ix f dv = dv[ix := f (dv ! ix)]"

fun collapse :: "node \<Rightarrow> bool \<Rightarrow> dataview \<Rightarrow> error + dataview"
and collapse_children :: "node list \<Rightarrow> dataview \<Rightarrow> error + dataview" where
  "collapse (Node i cs) hideSelf dv =
     (case getItem (Node i cs) dv of
        Inl e \<Rightarrow> Inl e
      | Inr None \<Rightarrow> Inl TypeError
      | Inr (Some ix) \<Rightarrow>
          (case cls i of
             LeafC \<Rightarrow>
               Inr (setProps ix (\<lambda>it. js_set ''_collapsed'' (Bool True)
                                        (js_set ''_hidden'' (Bool True) it)) dv)
           | TreeC \<Rightarrow>
               collapse_children cs
                 (if hideSelf then setProps ix (js_set ''_hidden'' (Bool True)) dv
                  else setProps ix (\<lambda>it. js_set ''_hidden'' (Bool False)
                                            (js_set ''_collapsed'' (Bool True) it)) dv)))"
| "collapse_children [] dv = Inr dv"
| "collapse_children (c # cs) dv =
     (case collapse c True dv of
        Inl e \<Rightarrow> Inl e
      | Inr dv' \<Rightarrow> collapse_children cs dv')"

fun expand :: "node \<Rightarrow> bool \<Rightarrow> dataview \<Rightarrow> error + dataview"
and expand_children :: "node list \<Rightarrow> nat \<Rightarrow> dataview \<Rightarrow> error + dataview" where
  "expand (Node i cs) notFirst dv =
     (case getItem (Node i cs) dv of
        Inl e \<Rightarrow> Inl e
      | Inr None \<Rightarrow> Inl TypeError
      | Inr (Some ix) \<Rightarrow>
          (case cls i of
             LeafC \<Rightarrow>
               Inr (setProps ix (\<lambda>it. js_set ''_collapsed'' (Bool False)
                                        (js_set ''_hidden'' (Bool False) it)) dv)
           | TreeC \<Rightarrow>
               expand_children cs ix
                 (setProps ix (js_set ''_hidden'' (Bool False))
                    (if \<not> notFirst then setProps ix (js_set ''_collapsed'' (Bool False)) dv
                     else dv))))"
| "expand_children [] ix dv = Inr dv"
| "expand_children (c # cs) ix dv =
     (if \<not> truthy (js_get (dv ! ix) ''_collapsed'') then
        (case expand c True dv of
           Inl e \<Rightarrow> Inl e
         | Inr dv' \<Rightarrow> expand_children cs ix dv')
      else expand_children cs ix dv)"

section \<open>The grid\<close>

text \<open>
  The state of an \<^verbatim>\<open>HGrid\<close>: its root \<open>tree\<close>, the items of the row store
  \<^verbatim>\<open>tree.dataView\<close> (which \<^verbatim>\<open>getDataView()\<close> returns), and the counters.
  A node reference held by an item is resolved in the grid's tree.
\<close>

record hgrid =
  tree :: node
  store :: dataview
  ctr :: counters

fun find_node :: "nat \<Rightarrow> node \<Rightarrow> node option"
and find_in :: "nat \<Rightarrow> node list \<Rightarrow> node option" where
  "find_node a (Node i cs) = (if addr i = a then Some (Node i cs) else find_in a cs)"
| "find_in a [] = None"
| "find_in a (c # cs) =
     (case find_node a c of Some n \<Rightarrow> Some n | None \<Rightarrow> find_in a cs)"

text \<open>A node object that was mutated in place: the tree with the new state of that object.\<close>

fun replace_node :: "nat \<Rightarrow> node \<Rightarrow> node \<Rightarrow> node" where
  "replace_node a n' (Node i cs) =
     (if addr i = a then n' else Node i (map (replace_node a n') cs))"

definition getByID :: "hgrid \<Rightarrow> jsval option \<Rightarrow> obj option" where
  "getByID g k = getItemById (store g) k"

text \<open>
  \<^verbatim>\<open>getNodeByID\<close>: the root for \<^verbatim>\<open>ROOT_ID\<close>, \<^verbatim>\<open>null\<close> or
  \<^verbatim>\<open>undefined\<close>, else the \<^verbatim>\<open>_node\<close> of the item with that id. A missing item
  raises a TypeError; so does a caller that uses a missing \<^verbatim>\<open>_node\<close>.
\<close>

definition getNodeByID :: "hgrid \<Rightarrow> jsval option \<Rightarrow> error + node" where
  "getNodeByID g k =
     (if k = Some ROOT_ID \<or> eq_null k then Inr (tree g)
      else
        (case getByID g k of
           None \<Rightarrow> Inl TypeError
         | Some item \<Rightarrow>
             (case js_get item ''_node'' of
                Some (Ref a) \<Rightarrow>
                  (case find_node a (tree g) of
                     Some n \<Rightarrow> Inr n
                   | None \<Rightarrow> Inl TypeError)
              | _ \<Rightarrow> Inl TypeError)))"

text \<open>
  \<^verbatim>\<open>HGrid.prototype.addItem\<close>; returns the new item as the store has it. The
  \<^verbatim>\<open>onItemAdded\<close> callback is the embedder's and does nothing by default.
\<close>

definition addItem :: "hgrid \<Rightarrow> obj \<Rightarrow> error + (obj option \<times> hgrid)" where
  "addItem g item =
     (let (node, c') =
            (if js_get item ''kind'' = Some FOLDER then newTree (Some item) (ctr g)
             else newLeaf item (ctr g))
      in
        (case (if eq_null (js_get item ''parentID'') then Inr (tree g)
               else getNodeByID g (js_get item ''parentID'')) of
           Inl e \<Rightarrow> Inl e
         | Inr parentNode \<Rightarrow>
             (case add parentNode node True (store g) of
                Inl e \<Rightarrow> Inl e
              | Inr (parentNode', dv') \<Rightarrow>
                  Inr (getItemById dv' (Some (nid (info node))),
                       \<lparr>tree = replace_node (addr (info parentNode)) parentNode' (tree g),
                        store = dv', ctr = c'\<rparr>))))"

text \<open>\<^verbatim>\<open>addItems\<close>: one \<^verbatim>\<open>addItem\<close> per element, inside a batch update.\<close>

fun addItems :: "hgrid \<Rightarrow> obj list \<Rightarrow> error + hgrid" where
  "addItems g [] = Inr g"
| "addItems g (item # items) =
     (case addItem g item of
        Inl e \<Rightarrow> Inl e
      | Inr (_, g') \<Rightarrow> addItems g' items)"

text \<open>\<^verbatim>\<open>HGrid.prototype.removeItem\<close>\<close>

definition removeItem :: "hgrid \<Rightarrow> jsval option \<Rightarrow> error + (obj option \<times> hgrid)" where
  "removeItem g k =
     (let item = getByID g k in
      case deleteItem (store g) k of
        Inl e \<Rightarrow> Inl e
      | Inr dv' \<Rightarrow> Inr (item, g\<lparr>store := dv'\<rparr>))"

text \<open>
  The constructor and \<^verbatim>\<open>init\<close>. Of the options, \<open>opt_data\<close> is
  \<^verbatim>\<open>options.data.data\<close> when \<^verbatim>\<open>options.data\<close> is given. \<open>dropzone\<close> tells
  whether the global \<^verbatim>\<open>Dropzone\<close> is defined. Sizing, styling and the construction
  of the external grid and upload widgets are left out.
\<close>

record options =
  opt_data :: "hobj list option"
  opt_ajaxSource :: "jsval option"
  opt_uploads :: bool

definition init :: "hgrid \<Rightarrow> options \<Rightarrow> bool \<Rightarrow> error + hgrid" where
  "init g opts dropzone =
     (if opt_uploads opts then
        (if \<not> dropzone then Inl (HGridError ''uploads=true requires DropZone to be loaded'')
         else Inr g)
      else Inr g)"

definition HGrid :: "options \<Rightarrow> bool \<Rightarrow> counters \<Rightarrow> error + hgrid" where
  "HGrid opts dropzone st =
     (if opt_data opts \<noteq> None \<and> truthy (opt_ajaxSource opts) then
        Inl (HGridError ''Cannot specify both \"data\" and \"ajaxSource\"'')
      else
        (case opt_data opts of
           Some d \<Rightarrow>
             (case fromObject (DArr d) None st of
                Inl e \<Rightarrow> Inl e
              | Inr (t, st') \<Rightarrow>
                  (case updateDataView t [] of
                     Inl e \<Rightarrow> Inl e
                   | Inr (t', dv) \<Rightarrow> init \<lparr>tree = t', store = dv, ctr = st'\<rparr> opts dropzone))
         | None \<Rightarrow>
             (let (t, st') = newTree None st
              in init \<lparr>tree = t, store = [], ctr = st'\<rparr> opts dropzone)))"

section \<open>Drag and drop\<close>

text \<open>An assignment \<^verbatim>\<open>ob.k = v\<close> where \<open>v\<close> may be \<^verbatim>\<open>undefined\<close>.\<close>

definition js_assign :: "string \<Rightarrow> jsval option \<Rightarrow> obj \<Rightarrow> obj" where
  "js_assign k v ob = (case v of None \<Rightarrow> js_delete k ob | Some x \<Rightarrow> js_set k x ob)"

text \<open>
  The copy \<^verbatim>\<open>onMoveRows\<close> makes of a moved item: the new \<open>parentID\<close>, and neither
  \<open>depth\<close> nor \<open>_node\<close>.
\<close>

definition moveCopy :: "jsval option \<Rightarrow> obj option \<Rightarrow> obj" where
  "moveCopy pid item =
     js_delete ''_node''
       (js_delete ''depth''
          (js_assign ''parentID'' pid
             (case item of None \<Rightarrow> [] | Some it \<Rightarrow> jq_extend [] it)))"

fun removeItems :: "hgrid \<Rightarrow> obj list \<Rightarrow> error + hgrid" where
  "removeItems g [] = Inr g"
| "removeItems g (item # items) =
     (case removeItem g (js_get item ''id'') of
        Inl e \<Rightarrow> Inl e
      | Inr (_, g') \<Rightarrow> removeItems g' items)"

text \<open>
  \<^verbatim>\<open>onMoveRows\<close> of the Draggable plugin, with the rows that were dragged and the
  plugin's current \<^verbatim>\<open>_folderTarget\<close>. Highlighting, selection and the
  \<^verbatim>\<open>onMoved\<close> callback do not touch the tree or the store.
\<close>

definition onMoveRows :: "hgrid \<Rightarrow> nat list \<Rightarrow> obj option \<Rightarrow> error + hgrid" where
  "onMoveRows g rows folderTarget =
     (let movedItems = map (getItemByIdx (store g)) rows in
      case folderTarget of
        None \<Rightarrow> Inl TypeError
      | Some ft \<Rightarrow>
          (let pid = js_get ft ''id'';
               newItems = map (moveCopy pid) movedItems
           in case removeItems g newItems of
                Inl e \<Rightarrow> Inl e
              | Inr g' \<Rightarrow> addItems g' newItems))"

section \<open>Reference notions and concrete inputs\<close>

text \<open>
  The rows of a subtree in pre-order: the node's own item first (none for a Tree of depth
  \<open>0\<close>, the root), then the rows of each child, in the order of the children.
\<close>

fun rows :: "node \<Rightarrow> obj list" where
  "rows (Node i cs) =
     (case cls i of
        LeafC \<Rightarrow> [toItem (Node i cs)]
      | TreeC \<Rightarrow>
          (if depth i \<noteq> Some 0 then [toItem (Node i cs)] else []) @ concat (map rows cs))"

definition row_names :: "obj list \<Rightarrow> jsval option list" where
  "row_names dv = map (\<lambda>r. js_get r ''name'') dv"

text \<open>
  The end-to-end scenario of the specification: a folder \<open>docs\<close> holding the file
  \<open>a.txt\<close>, and the top-level file \<open>b.txt\<close>; and the grid that the constructor
  builds from it when the id counter starts at \<open>0\<close>.
\<close>

definition scenario :: "hobj list" where
  "scenario =
     [HObj [(''name'', Str ''docs''), (''kind'', Str ''folder'')]
        (Some [HObj [(''name'', Str ''a.txt''), (''kind'', Str ''file'')] None]),
      HObj [(''name'', Str ''b.txt''), (''kind'', Str ''file'')] None]"

definition scenario_grid :: hgrid where
  "scenario_grid =
     \<lparr>tree =
        Node \<lparr>addr = 0, cls = TreeC, nid = Str ''root'', parentID = Null,
              depth = Some 0, data = None, dataView = True\<rparr>
         [Node \<lparr>addr = 1, cls = TreeC, nid = Num 0, parentID = Str ''root'',
                depth = Some 1,
                data = Some [(''name'', Str ''docs''), (''kind'', Str ''folder'')],
                dataView = True\<rparr>
            [Node \<lparr>addr = 2, cls = LeafC, nid = Num 1, parentID = Num 0,
                   depth = Some 2,
                   data = Some [(''name'', Str ''a.txt''), (''kind'', Str ''file'')],
                   dataView = True\<rparr> []],
          Node \<lparr>addr = 3, cls = LeafC, nid = Num 2, parentID = Str ''root'',
                depth = Some 1,
                data = Some [(''name'', Str ''b.txt''), (''kind'', Str ''file'')],
                dataView = True\<rparr> []],
      store =
        [[(''depth'', Num 1), (''_node'', Ref 1), (''parentID'', Str ''root''),
          (''id'', Num 0), (''kind'', Str ''folder''), (''name'', Str ''docs'')],
         [(''depth'', Num 2), (''_node'', Ref 2), (''parentID'', Num 0),
          (''id'', Num 1), (''kind'', Str ''file''), (''name'', Str ''a.txt'')],
         [(''depth'', Num 1), (''_node'', Ref 3), (''parentID'', Str ''root''),
          (''id'', Num 2), (''kind'', Str ''file''), (''name'', Str ''b.txt'')]],
      ctr = \<lparr>idCounter = 3, nextAddr = 4\<rparr>\<rparr>"

text \<open>A file whose data carries a \<open>depth\<close> of its own, attached below the root.\<close>

definition depth7_leaf :: node where
  "depth7_leaf =
     Node \<lparr>addr = 1, cls = LeafC, nid = Num 5, parentID = Str ''root'', depth = Some 1,
           data = Some [(''name'', Str ''x''), (''kind'', Str ''file''), (''depth'', Num 7)],
           dataView = True\<rparr> []"

text \<open>One past the row index of an id, and \<open>0\<close> when no row has the id.\<close>

definition rowAfter :: "dataview \<Rightarrow> jsval option \<Rightarrow> nat" where
  "rowAfter dv k = (case getIdxById dv k of None \<Rightarrow> 0 | Some i \<Rightarrow> Suc i)"

text \<open>The \<open>docs\<close> folder of the scenario grid, and a new file made once the grid exists.\<close>

definition docs_node :: node where
  "docs_node =
     Node \<lparr>addr = 1, cls = TreeC, nid = Num 0, parentID = Str ''root'', depth = Some 1,
           data = Some [(''name'', Str ''docs''), (''kind'', Str ''folder'')],
           dataView = True\<rparr>
       [Node \<lparr>addr = 2, cls = LeafC, nid = Num 1, parentID = Num 0, depth = Some 2,
              data = Some [(''name'', Str ''a.txt''), (''kind'', Str ''file'')],
              dataView = True\<rparr> []]"

definition new_leaf :: node where
  "new_leaf =
     fst (newLeaf [(''name'', Str ''new.txt''), (''kind'', Str ''file'')]
            \<lparr>idCounter = 3, nextAddr = 4\<rparr>)"

text \<open>The nodes of a subtree in pre-order, the node itself first.\<close>

fun nodes :: "node \<Rightarrow> node list" where
  "nodes (Node i cs) = Node i cs # concat (map nodes cs)"

text \<open>
  The pre-order traversal of a nested hierarchy, each object with its nesting level.
  An object of kind \<open>file\<close> is a leaf of the hierarchy; any other object is followed by
  its children, in input order, one level down.
\<close>

definition kids_list :: "hobj \<Rightarrow> hobj list" where
  "kids_list h = (case kids h of None \<Rightarrow> [] | Some cs \<Rightarrow> cs)"

fun preorder :: "nat \<Rightarrow> hobj \<Rightarrow> (hobj \<times> nat) list"
and preorder_list :: "nat \<Rightarrow> hobj list \<Rightarrow> (hobj \<times> nat) list" where
  "preorder lvl (HObj p None) = [(HObj p None, lvl)]"
| "preorder lvl (HObj p (Some cs)) =
     (HObj p (Some cs), lvl) #
       (if js_get p ''kind'' = Some FILE then [] else preorder_list (Suc lvl) cs)"
| "preorder_list lvl [] = []"
| "preorder_list lvl (h # hs) = preorder lvl h @ preorder_list lvl hs"

text \<open>
  A hierarchy is well formed when no object of it carries a \<open>depth\<close> property of its
  own (such a property would replace the computed depth in the row, see C9).
\<close>

definition wellformed :: "hobj list \<Rightarrow> bool" where
  "wellformed H = list_all (\<lambda>(h, lvl). js_get (props h) ''depth'' = None) (preorder_list 1 H)"

text \<open>
  What \<^verbatim>\<open>Tree.fromObject\<close> keeps true of the subtrees it attaches: no node has
  depth \<open>0\<close> and a Leaf has no children. \<open>shape\<close> lists class, data and depth of
  the nodes of a subtree in pre-order, and \<open>proj\<close> is what an object of the hierarchy at
  a given level is expected to become.
\<close>

fun built :: "node \<Rightarrow> bool" where
  "built (Node i cs) =
     (depth i \<noteq> Some 0 \<and> (cls i = LeafC \<longrightarrow> cs = []) \<and> (\<forall>c \<in> set cs. built c))"

definition shape :: "node \<Rightarrow> (cls \<times> obj option \<times> nat option) list" where
  "shape n = map (\<lambda>m. (cls (info m), data (info m), depth (info m))) (nodes n)"

definition proj :: "hobj \<times> nat \<Rightarrow> cls \<times> obj option \<times> nat option" where
  "proj x = (if js_get (props (fst x)) ''kind'' = Some FILE then LeafC else TreeC,
             Some (props (fst x)), Some (snd x))"

text \<open>
  The ids of the rows of a store, the proper descendants of a node and the ids of a list
  of nodes.
\<close>

definition ids :: "dataview \<Rightarrow> jsval option list" where
  "ids dv = map (\<lambda>it. js_get it ''id'') dv"

definition descendants :: "node \<Rightarrow> node list" where
  "descendants n = concat (map nodes (children n))"

definition node_ids :: "node list \<Rightarrow> jsval list" where
  "node_ids ms = map (\<lambda>m. nid (info m)) ms"

text \<open>
  A subtree is materialized in a store when every node of it holds the store and has a row
  under its id, a Leaf has no children, and the ids of its nodes are pairwise different.
\<close>

definition in_store :: "node \<Rightarrow> dataview \<Rightarrow> bool" where
  "in_store n dv =
     list_all (\<lambda>m. dataView (info m) \<and> idx_of (nid (info m)) dv \<noteq> None \<and>
                    (cls (info m) \<noteq> LeafC \<or> children m = [])) (nodes n)"

definition materialized :: "node \<Rightarrow> dataview \<Rightarrow> bool" where
  "materialized n dv = (in_store n dv \<and> distinct (node_ids (nodes n)))"

text \<open>
  The flag assignments of \<^verbatim>\<open>collapse\<close>: \<open>collapseSelf\<close> is what a call with the
  given \<open>hideSelf\<close> writes to the node's own item, \<open>hideItem\<close> what the cascade
  (\<^verbatim>\<open>collapse(true)\<close>) writes to the item of a descendant. \<open>hit f m\<close> applies
  \<open>f\<close> to the item of node \<open>m\<close>, and \<open>touch\<close> does so for a list of nodes in turn.
  \<open>idp f\<close> says that \<open>f\<close> leaves the \<open>id\<close> of an item alone.
\<close>

definition collapseSelf :: "node \<Rightarrow> bool \<Rightarrow> obj \<Rightarrow> obj" where
  "collapseSelf m hideSelf it =
     (case cls (info m) of
        LeafC \<Rightarrow> js_set ''_collapsed'' (Bool True) (js_set ''_hidden'' (Bool True) it)
      | TreeC \<Rightarrow>
          (if hideSelf then js_set ''_hidden'' (Bool True) it
           else js_set ''_hidden'' (Bool False) (js_set ''_collapsed'' (Bool True) it)))"

definition hit :: "(obj \<Rightarrow> obj) \<Rightarrow> node \<Rightarrow> dataview \<Rightarrow> dataview" where
  "hit f m dv = (case idx_of (nid (info m)) dv of None \<Rightarrow> dv | Some ix \<Rightarrow> setProps ix f dv)"

definition touch :: "(node \<Rightarrow> obj \<Rightarrow> obj) \<Rightarrow> node list \<Rightarrow> dataview \<Rightarrow> dataview" where
  "touch g ms dv = fold (\<lambda>m. hit (g m) m) ms dv"

definition hideItem :: "node \<Rightarrow> obj \<Rightarrow> obj" where
  "hideItem m it =
     (case cls (info m) of
        LeafC \<Rightarrow> js_set ''_collapsed'' (Bool True) (js_set ''_hidden'' (Bool True) it)
      | TreeC \<Rightarrow> js_set ''_hidden'' (Bool True) it)"

definition idp :: "(obj \<Rightarrow> obj) \<Rightarrow> bool" where
  "idp f = (\<forall>it. js_get (f it) ''id'' = js_get it ''id'')"

text \<open>
  The flag assignments of \<^verbatim>\<open>expand\<close>: \<open>expandSelf\<close> is what a call with the given
  \<open>notFirst\<close> writes to the node's own item, \<open>revealItem\<close> what a descendant call
  (\<^verbatim>\<open>expand(true)\<close>) writes. \<open>marked_collapsed\<close> reads \<open>_collapsed\<close> off the
  node's item (\<^verbatim>\<open>isCollapsed\<close>, with a missing item counting as not collapsed).
\<close>

definition revealItem :: "node \<Rightarrow> obj \<Rightarrow> obj" where
  "revealItem m it =
     (case cls (info m) of
        LeafC \<Rightarrow> js_set ''_collapsed'' (Bool False) (js_set ''_hidden'' (Bool False) it)
      | TreeC \<Rightarrow> js_set ''_hidden'' (Bool False) it)"

definition expandSelf :: "node \<Rightarrow> bool \<Rightarrow> obj \<Rightarrow> obj" where
  "expandSelf m notFirst it =
     (case cls (info m) of
        LeafC \<Rightarrow> js_set ''_collapsed'' (Bool False) (js_set ''_hidden'' (Bool False) it)
      | TreeC \<Rightarrow>
          (if notFirst then js_set ''_hidden'' (Bool False) it
           else js_set ''_hidden'' (Bool False) (js_set ''_collapsed'' (Bool False) it)))"

definition marked_collapsed :: "dataview \<Rightarrow> node \<Rightarrow> bool" where
  "marked_collapsed dv m =
     (case getItemById dv (Some (nid (info m))) of
        None \<Rightarrow> False
      | Some it \<Rightarrow> truthy (js_get it ''_collapsed''))"

text \<open>
  What a descendant call reaches from a node: the node itself and, unless its item is
  marked collapsed, what is reached from each of its children. \<open>revealed\<close> is what a
  first call on a node reaches below it: every child, and below a child as just said.
\<close>

fun reached :: "dataview \<Rightarrow> node \<Rightarrow> node list" where
  "reached dv (Node i cs) =
     Node i cs #
       (if marked_collapsed dv (Node i cs) then [] else concat (map (reached dv) cs))"

definition revealed :: "dataview \<Rightarrow> node \<Rightarrow> node list" where
  "revealed dv n = concat (map (reached dv) (children n))"

text \<open>The store of the scenario grid after \<open>docs\<close> was collapsed.\<close>

definition collapsed_store :: dataview where
  "collapsed_store =
     [[(''depth'', Num 1), (''_node'', Ref 1), (''parentID'', Str ''root''),
       (''id'', Num 0), (''kind'', Str ''folder''), (''name'', Str ''docs''),
       (''_collapsed'', Bool True), (''_hidden'', Bool False)],
      [(''depth'', Num 2), (''_node'', Ref 2), (''parentID'', Num 0),
       (''id'', Num 1), (''kind'', Str ''file''), (''name'', Str ''a.txt''),
       (''_hidden'', Bool True), (''_collapsed'', Bool True)],
      [(''depth'', Num 1), (''_node'', Ref 3), (''parentID'', Str ''root''),
       (''id'', Num 2), (''kind'', Str ''file''), (''name'', Str ''b.txt'')]]"

text \<open>Whether a result is a raised \<^verbatim>\<open>HGridError\<close>.\<close>

definition isHGridError :: "error + 'a \<Rightarrow> bool" where
  "isHGridError r = (case r of Inl (HGridError m) \<Rightarrow> True | _ \<Rightarrow> False)"

section \<open>Objects and the row store\<close>

lemma js_get_extend:
  "js_get (jq_extend t s) k = (case js_get s k of Some v \<Rightarrow> Some v | None \<Rightarrow> js_get t k)"
  unfolding js_get_def jq_extend_def by (simp add: AList.merge_conv' map_add_def)

lemma js_get_Nil: "js_get [] k = None"
  by (simp add: js_get_def)

lemma js_get_set: "js_get (js_set k v ob) k' = (if k' = k then Some v else js_get ob k')"
  by (simp add: js_get_def js_set_def AList.update_conv')

lemma js_get_delete: "js_get (js_delete k ob) k' = (if k' = k then None else js_get ob k')"
  by (simp add: js_get_def js_delete_def AList.delete_conv')

lemma js_get_toItem:
  "js_get (toItem n) k =
     (case data (info n) of
        None \<Rightarrow> js_get (structural n) k
      | Some d \<Rightarrow> (case js_get d k of Some v \<Rightarrow> Some v | None \<Rightarrow> js_get (structural n) k))"
  by (simp add: toItem_def js_get_extend js_get_Nil split: option.splits)

lemma toData_into_rows:
  "toData_into n acc = acc @ rows n"
  "toData_children cs acc = acc @ concat (map rows cs)"
  by (induction n acc and cs acc rule: toData_into_toData_children.induct)
     (auto split: cls.splits)

lemma idx_of_Some:
  "idx_of k dv = Some i \<Longrightarrow> i < length dv \<and> js_get (dv ! i) ''id'' = Some k
     \<and> (\<forall>j<i. js_get (dv ! j) ''id'' \<noteq> Some k)"
proof (induction dv arbitrary: i)
  case Nil
  then show ?case by simp
next
  case (Cons it its)
  show ?case
  proof (cases "js_get it ''id'' = Some k")
    case True
    with Cons.prems show ?thesis by simp
  next
    case False
    with Cons.prems obtain i' where i': "idx_of k its = Some i'" "i = Suc i'" by auto
    from Cons.IH[OF i'(1)] False i'(2) show ?thesis
      by (auto simp: nth_Cons split: nat.splits)
  qed
qed

lemma idx_of_None: "idx_of k dv = None \<longleftrightarrow> (\<forall>it \<in> set dv. js_get it ''id'' \<noteq> Some k)"
  by (induction dv) auto


lemma scenario_built:
  "HGrid \<lparr>opt_data = Some scenario, opt_ajaxSource = None, opt_uploads = False\<rparr> False
     \<lparr>idCounter = 0, nextAddr = 0\<rparr> = Inr scenario_grid"
  by code_simp


section \<open>The projection of a node\<close>

text \<open>
  C9. In \<^verbatim>\<open>Tree.toData\<close> and \<^verbatim>\<open>Leaf.toData\<close> the item is the structural
  fields with the node's data merged over them: a property that the data defines
  (\<open>id\<close>, \<open>parentID\<close>, \<open>depth\<close>, \<open>_node\<close> or any other) has the data's value in
  the row, and a property the data does not define has the structural value. The row is the
  Leaf's result, and the first row of a Tree's result.
\<close>

theorem toData_user_data_overrides:
  assumes "data (info n) = Some d" and "js_get d k = Some v"
  shows "js_get (toItem n) k = Some v \<and>
         (\<forall>k'. js_get d k' = None \<longrightarrow> js_get (toItem n) k' = js_get (structural n) k') \<and>
         (cls (info n) = LeafC \<longrightarrow> toData n = Row (toItem n)) \<and>
         (cls (info n) = TreeC \<longrightarrow> depth (info n) \<noteq> Some 0 \<longrightarrow>
            toData n = Rows (toItem n # concat (map rows (children n))))"
proof -
  have "toData_into n [] = rows n"
    using toData_into_rows(1)[of n "[]"] by simp
  then have "cls (info n) = TreeC \<Longrightarrow> depth (info n) \<noteq> Some 0 \<Longrightarrow>
      toData n = Rows (toItem n # concat (map rows (children n)))"
    by (cases n) (simp add: toData_def)
  moreover have "cls (info n) = LeafC \<Longrightarrow> toData n = Row (toItem n)"
    by (simp add: toData_def)
  ultimately show ?thesis
    using assms by (simp add: js_get_toItem)
qed

theorem toData_user_data_overrides_witness:
  "data (info depth7_leaf) =
     Some [(''name'', Str ''x''), (''kind'', Str ''file''), (''depth'', Num 7)] \<and>
   js_get [(''name'', Str ''x''), (''kind'', Str ''file''), (''depth'', Num 7)] ''depth'' =
     Some (Num 7) \<and>
   depth (info depth7_leaf) = Some 1 \<and>
   js_get (toItem depth7_leaf) ''depth'' = Some (Num 7) \<and>
   toData depth7_leaf = Row (toItem depth7_leaf)"
  using toData_user_data_overrides[of depth7_leaf
      "[(''name'', Str ''x''), (''kind'', Str ''file''), (''depth'', Num 7)]" "''depth''" "Num 7"]
  by (simp add: depth7_leaf_def js_get_def)

section \<open>Removing an item\<close>

text \<open>
  C10. For an id present in the store, \<^verbatim>\<open>removeItem\<close> returns the item with that id
  and deletes that one row: the store loses exactly the row at the item's index, every
  other row stays as it was, and the tree and the counters are unchanged.
\<close>

theorem removeItem_deletes_one_row:
  assumes "getByID g (Some k) = Some it"
  shows "\<exists>i g'. removeItem g (Some k) = Inr (Some it, g') \<and>
           tree g' = tree g \<and> ctr g' = ctr g \<and>
           i < length (store g) \<and> store g ! i = it \<and> js_get it ''id'' = Some k \<and>
           store g' = take i (store g) @ drop (Suc i) (store g) \<and>
           length (store g') = length (store g) - 1 \<and>
           (\<forall>j<length (store g). j \<noteq> i \<longrightarrow> store g ! j \<in> set (store g'))"
proof -
  from assms obtain i where i: "idx_of k (store g) = Some i" "it = store g ! i"
    by (auto simp: getByID_def getItemById_def getIdxById_def)
  from idx_of_Some[OF i(1)] have lt: "i < length (store g)"
    and idk: "js_get (store g ! i) ''id'' = Some k" by auto
  let ?dv = "take i (store g) @ drop (Suc i) (store g)"
  have rm: "removeItem g (Some k) = Inr (Some it, g\<lparr>store := ?dv\<rparr>)"
    using assms i by (simp add: removeItem_def deleteItem_def getIdxById_def)
  have len: "length ?dv = length (store g) - 1"
    using lt by simp
  have keep: "store g ! j \<in> set ?dv" if "j < length (store g)" "j \<noteq> i" for j
  proof (cases "j < i")
    case True
    then have "store g ! j = take i (store g) ! j" by simp
    moreover have "j < length (take i (store g))" using True lt by simp
    ultimately show ?thesis by (metis UnI1 nth_mem set_append)
  next
    case False
    with that have "Suc i \<le> j" by simp
    then obtain m where m: "j = Suc i + m" using le_Suc_ex by blast
    with that have "m < length (drop (Suc i) (store g))" by simp
    moreover have "drop (Suc i) (store g) ! m = store g ! j"
      using m that by simp
    ultimately show ?thesis by (metis UnI2 nth_mem set_append)
  qed
  show ?thesis
    using rm lt i(2) idk len keep
    by (intro exI[of _ i] exI[of _ "g\<lparr>store := ?dv\<rparr>"]) simp
qed

theorem removeItem_deletes_one_row_witness:
  "getByID scenario_grid (Some (Num 0)) = Some (store scenario_grid ! 0) \<and>
   (\<exists>i g'. removeItem scenario_grid (Some (Num 0)) = Inr (Some (store scenario_grid ! 0), g') \<and>
      tree g' = tree scenario_grid \<and> ctr g' = ctr scenario_grid \<and>
      i < length (store scenario_grid) \<and> store scenario_grid ! i = store scenario_grid ! 0 \<and>
      js_get (store scenario_grid ! 0) ''id'' = Some (Num 0) \<and>
      store g' = take i (store scenario_grid) @ drop (Suc i) (store scenario_grid) \<and>
      length (store g') = length (store scenario_grid) - 1 \<and>
      (\<forall>j<length (store scenario_grid). j \<noteq> i \<longrightarrow> store scenario_grid ! j \<in> set (store g')))"
proof -
  have h: "getByID scenario_grid (Some (Num 0)) = Some (store scenario_grid ! 0)"
    by (simp add: getByID_def getItemById_def getIdxById_def scenario_grid_def js_get_def)
  show ?thesis
    using h removeItem_deletes_one_row[OF h] by blast
qed

text \<open>
  C5, as the specification states it, fails: in the scenario, after removing \<open>docs\<close> by
  its id the visible rows are \<open>a.txt\<close> and \<open>b.txt\<close>, not \<open>b.txt\<close> alone.
\<close>

theorem removeItem_folder_keeps_descendants:
  "(case HGrid \<lparr>opt_data = Some scenario, opt_ajaxSource = None, opt_uploads = False\<rparr> False
          \<lparr>idCounter = 0, nextAddr = 0\<rparr> of
      Inl e \<Rightarrow> None
    | Inr g \<Rightarrow>
        (case removeItem g (Some (Num 0)) of
           Inl e \<Rightarrow> None
         | Inr (it, g') \<Rightarrow> Some (row_names (visibleRows (store g')))))
   = Some [Some (Str ''a.txt''), Some (Str ''b.txt'')]"
  by (simp add: scenario_built removeItem_def deleteItem_def getIdxById_def getByID_def
      getItemById_def scenario_grid_def js_get_def visibleRows_def collapseFilter_def
      row_names_def)


text \<open>
  C5, amended. In the scenario, removing \<open>docs\<close> by its id returns the \<open>docs\<close> item
  and removes that row only: the rows of \<open>a.txt\<close> and \<open>b.txt\<close> stay in the store,
  both visible, and the tree is unchanged.
\<close>

theorem removeItem_scenario_removes_only_docs:
  "\<exists>g it g'.
     HGrid \<lparr>opt_data = Some scenario, opt_ajaxSource = None, opt_uploads = False\<rparr> False
       \<lparr>idCounter = 0, nextAddr = 0\<rparr> = Inr g \<and>
     row_names (store g) = [Some (Str ''docs''), Some (Str ''a.txt''), Some (Str ''b.txt'')] \<and>
     removeItem g (Some (Num 0)) = Inr (Some it, g') \<and>
     js_get it ''name'' = Some (Str ''docs'') \<and>
     row_names (store g') = [Some (Str ''a.txt''), Some (Str ''b.txt'')] \<and>
     row_names (visibleRows (store g')) = [Some (Str ''a.txt''), Some (Str ''b.txt'')] \<and>
     tree g' = tree g"
  by (simp add: scenario_built removeItem_def deleteItem_def getIdxById_def getByID_def
      getItemById_def scenario_grid_def js_get_def visibleRows_def collapseFilter_def
      row_names_def)

section \<open>Adding a single node with store sync\<close>

lemma computeAddIdx_rowAfter:
  "computeAddIdx item dv = rowAfter dv (js_get item ''parentID'')"
proof (cases "getIdxById dv (js_get item ''parentID'')")
  case None
  then show ?thesis by (simp add: computeAddIdx_def rowAfter_def getItemById_def)
next
  case (Some i)
  then obtain p where p: "js_get item ''parentID'' = Some p" "idx_of p dv = Some i"
    by (auto simp: getIdxById_def split: option.splits)
  from idx_of_Some[OF p(2)] have "js_get (dv ! i) ''id'' = Some p" by simp
  with p Some show ?thesis
    by (simp add: computeAddIdx_def rowAfter_def getItemById_def getIdxById_def)
qed

lemma adopt_simps:
  "children (adopt this c) = children c"
  "cls (info (adopt this c)) = cls (info c)"
  "data (info (adopt this c)) = data (info c)"
  "nid (info (adopt this c)) = nid (info c)"
  "addr (info (adopt this c)) = addr (info c)"
  "parentID (info (adopt this c)) = nid (info this)"
  "depth (info (adopt this c)) = Some (depth_plus1 (depth (info this)))"
  "dataView (info (adopt this c)) = dataView (info this)"
  by (simp_all add: adopt_def)

lemma js_get_structural:
  "js_get (structural n) ''id'' = Some (nid (info n))"
  "js_get (structural n) ''parentID'' = Some (parentID (info n))"
  "js_get (structural n) ''_node'' = Some (Ref (addr (info n)))"
  "js_get (structural n) ''depth'' = Some (depth_val (depth (info n)))"
  by (simp_all add: structural_def js_get_def)

lemma depth_plus1_pos: "depth_plus1 d \<noteq> 0"
  by (simp add: depth_plus1_def split: option.splits)

lemma single_node_rows:
  assumes "children c = []"
  shows "insertIntoDataView this' (adopt this c) dv =
           (if dataView (info this') then
              Inr (insertItem dv (rowAfter dv (js_get (toItem (adopt this c)) ''parentID''))
                     (toItem (adopt this c)))
            else Inl TypeError)"
proof -
  have "toData_into (adopt this c) [] = [toItem (adopt this c)]"
    using assms toData_into_rows(1)[of "adopt this c" "[]"]
    by (cases "adopt this c") (auto simp: adopt_def depth_plus1_pos split: cls.splits)
  then show ?thesis
    by (simp add: insertIntoDataView_def toData_def computeAddIdx_rowAfter split: cls.splits)
qed

text \<open>
  C4. When a single node (a Leaf, or a Tree without children) is added to a Tree with
  \<^verbatim>\<open>updateDataView\<close> set, its item is inserted at the index one past the row that
  its \<open>parentID\<close> names, and at index \<open>0\<close> when no row has that id (as for the
  root, which has no row). The \<open>parentID\<close> of the item is the id of the Tree it was
  added to, unless the node's own data says otherwise. The rows before the index are
  unchanged and the rows from the index on move down by one, so the new row comes
  directly after its parent's row, before the parent's earlier children.
\<close>

theorem add_inserts_after_parent_row:
  assumes tree: "cls (info this) = TreeC" and sync: "dataView (info this)"
    and single: "children c = []"
  shows "\<exists>item ix.
           item = toItem (adopt this c) \<and>
           ix = rowAfter dv (js_get item ''parentID'') \<and>
           add this c True dv = Inr (attach this c, insertItem dv ix item) \<and>
           ix \<le> length dv \<and> insertItem dv ix item ! ix = item \<and>
           take ix (insertItem dv ix item) = take ix dv \<and>
           drop (Suc ix) (insertItem dv ix item) = drop ix dv \<and>
           ((\<forall>d. data (info c) = Some d \<longrightarrow>
                 js_get d ''parentID'' = None \<or> js_get d ''parentID'' = Some (nid (info this)))
              \<longrightarrow> js_get item ''parentID'' = Some (nid (info this))) \<and>
           (\<forall>i. getIdxById dv (js_get item ''parentID'') = Some i \<longrightarrow>
                 ix = Suc i \<and> insertItem dv ix item ! i = dv ! i) \<and>
           (getIdxById dv (js_get item ''parentID'') = None \<longrightarrow> ix = 0)"
proof -
  let ?item = "toItem (adopt this c)"
  let ?ix = "rowAfter dv (js_get ?item ''parentID'')"
  have le: "?ix \<le> length dv"
  proof (cases "getIdxById dv (js_get ?item ''parentID'')")
    case None
    then show ?thesis by (simp add: rowAfter_def)
  next
    case (Some i)
    then obtain p where "idx_of p dv = Some i"
      by (auto simp: getIdxById_def split: option.splits)
    from idx_of_Some[OF this] Some show ?thesis by (simp add: rowAfter_def)
  qed
  have addr: "add this c True dv = Inr (attach this c, insertItem dv ?ix ?item)"
    using tree sync single_node_rows[OF single, of "attach this c" this dv]
    by (simp add: add_def attach_def)
  have at: "insertItem dv ?ix ?item ! ?ix = ?item"
    using le by (simp add: insertItem_def nth_append)
  have tk: "take ?ix (insertItem dv ?ix ?item) = take ?ix dv"
    using le by (simp add: insertItem_def)
  have dr: "drop (Suc ?ix) (insertItem dv ?ix ?item) = drop ?ix dv"
    using le by (simp add: insertItem_def)
  have pid: "js_get ?item ''parentID'' = Some (nid (info this))"
    if "\<forall>d. data (info c) = Some d \<longrightarrow>
          js_get d ''parentID'' = None \<or> js_get d ''parentID'' = Some (nid (info this))"
    using that
    by (auto simp: js_get_toItem adopt_simps js_get_structural split: option.splits)
  have par: "?ix = Suc i \<and> insertItem dv ?ix ?item ! i = dv ! i"
    if "getIdxById dv (js_get ?item ''parentID'') = Some i" for i
    using that le by (simp add: rowAfter_def insertItem_def nth_append)
  have none: "?ix = 0" if "getIdxById dv (js_get ?item ''parentID'') = None"
    using that by (simp add: rowAfter_def)
  have pid': "(\<forall>d. data (info c) = Some d \<longrightarrow>
                 js_get d ''parentID'' = None \<or> js_get d ''parentID'' = Some (nid (info this)))
              \<longrightarrow> js_get ?item ''parentID'' = Some (nid (info this))"
    using pid by (rule impI)
  have par': "\<forall>i. getIdxById dv (js_get ?item ''parentID'') = Some i \<longrightarrow>
                 ?ix = Suc i \<and> insertItem dv ?ix ?item ! i = dv ! i"
    using par by (intro allI impI)
  have none': "getIdxById dv (js_get ?item ''parentID'') = None \<longrightarrow> ?ix = 0"
    using none by (rule impI)
  show ?thesis
    by (intro exI[of _ ?item] exI[of _ ?ix] conjI refl addr le at tk dr pid' par' none')
qed


theorem add_inserts_after_parent_row_witness:
  "cls (info docs_node) = TreeC \<and> dataView (info docs_node) \<and> children new_leaf = [] \<and>
   (\<exists>dv'. add docs_node new_leaf True (store scenario_grid) = Inr (attach docs_node new_leaf, dv') \<and>
      row_names dv' =
        [Some (Str ''docs''), Some (Str ''new.txt''), Some (Str ''a.txt''), Some (Str ''b.txt'')])"
proof -
  have h1: "cls (info docs_node) = TreeC" and h2: "dataView (info docs_node)"
    by (simp_all add: docs_node_def)
  have h3: "children new_leaf = []"
    by (simp add: new_leaf_def newLeaf_def chooseId_def getUID_def js_get_def)
  have ev: "row_names (insertItem (store scenario_grid)
              (rowAfter (store scenario_grid)
                 (js_get (toItem (adopt docs_node new_leaf)) ''parentID''))
              (toItem (adopt docs_node new_leaf))) =
        [Some (Str ''docs''), Some (Str ''new.txt''), Some (Str ''a.txt''), Some (Str ''b.txt'')]"
    by (simp add: row_names_def insertItem_def rowAfter_def getIdxById_def scenario_grid_def
        toItem_def adopt_def docs_node_def new_leaf_def newLeaf_def chooseId_def getUID_def
        structural_def jq_extend_def AList.merge_def js_get_def depth_plus1_def depth_val_def)
  from add_inserts_after_parent_row[OF h1 h2 h3, of "store scenario_grid"]
  have "add docs_node new_leaf True (store scenario_grid) =
          Inr (attach docs_node new_leaf,
               insertItem (store scenario_grid)
                 (rowAfter (store scenario_grid)
                    (js_get (toItem (adopt docs_node new_leaf)) ''parentID''))
                 (toItem (adopt docs_node new_leaf)))"
    by (elim exE conjE) simp
  with h1 h2 h3 ev show ?thesis by simp
qed

section \<open>Building and flattening a hierarchy\<close>

lemma preorder_unfold:
  "preorder lvl h =
     (h, lvl) # (if js_get (props h) ''kind'' = Some FILE then []
                 else preorder_list (Suc lvl) (kids_list h))"
  by (cases h; cases "kids h") (auto simp: kids_list_def)

lemma rows_nodes: "built n \<Longrightarrow> rows n = map toItem (nodes n)"
proof (induction n)
  case (Node i cs)
  then have "\<forall>c \<in> set cs. rows c = map toItem (nodes c)" by auto
  then have "map rows cs = map (\<lambda>c. map toItem (nodes c)) cs" by (intro map_cong refl) simp
  then have "concat (map rows cs) = concat (map (\<lambda>c. map toItem (nodes c)) cs)"
    by (rule arg_cong)
  also have "\<dots> = map toItem (concat (map nodes cs))"
    by (simp add: map_concat comp_def)
  finally have "concat (map rows cs) = map toItem (concat (map nodes cs))" .
  with Node.prems show ?case by (auto split: cls.splits)
qed

lemma newLeaf_facts:
  "cls (info (fst (newLeaf d st))) = LeafC"
  "data (info (fst (newLeaf d st))) = Some d"
  "children (fst (newLeaf d st)) = []"
  by (simp_all add: newLeaf_def chooseId_def getUID_def split: option.splits prod.splits)

lemma shape_adopt:
  "shape (adopt this c) =
     (cls (info c), data (info c), Some (depth_plus1 (depth (info this)))) #
       concat (map shape (children c))"
  by (cases c) (simp add: shape_def[abs_def] adopt_def map_concat comp_def)

lemma built_adopt: "built (adopt this c) \<longleftrightarrow>
    (cls (info c) = LeafC \<longrightarrow> children c = []) \<and> (\<forall>x \<in> set (children c). built x)"
  by (cases c) (simp add: adopt_def depth_plus1_pos)

lemma fromObject_loop_shape:
  assumes "\<And>c par st. c \<in> set cs \<Longrightarrow>
     \<exists>sub st'. fromObject (DObj c) (Some par) st = Inr (sub, st') \<and>
        cls (info sub) = TreeC \<and> data (info sub) = Some (props c) \<and>
        (\<forall>x \<in> set (children sub). built x) \<and>
        concat (map shape (children sub)) =
          map proj (preorder_list (Suc (depth_plus1 (depth (info par)))) (kids_list c))"
  shows "\<exists>new st'. fromObject_loop cs tr st = Inr (Node (info tr) (children tr @ new), st') \<and>
           (\<forall>x \<in> set new. built x) \<and>
           concat (map shape new) = map proj (preorder_list (depth_plus1 (depth (info tr))) cs)"
  using assms
proof (induction cs arbitrary: tr st)
  case Nil
  show ?case by (rule exI[of _ "[]"]) simp
next
  case (Cons c cs)
  let ?lvl = "depth_plus1 (depth (info tr))"
  have rest: "\<exists>new st'. fromObject_loop cs t s = Inr (Node (info t) (children t @ new), st') \<and>
           (\<forall>x \<in> set new. built x) \<and>
           concat (map shape new) = map proj (preorder_list (depth_plus1 (depth (info t))) cs)"
    for t s
    by (rule Cons.IH) (rule Cons.prems, simp)
  show ?case
  proof (cases "js_get (props c) ''kind'' = Some FILE")
    case True
    obtain leaf s1 where nl: "newLeaf (props c) st = (leaf, s1)" by (cases "newLeaf (props c) st")
    from newLeaf_facts[of "props c" st] nl
    have lf: "cls (info leaf) = LeafC" "data (info leaf) = Some (props c)" "children leaf = []"
      by simp_all
    from rest[of "attach tr leaf" s1] obtain new st' where
      r: "fromObject_loop cs (attach tr leaf) s1 =
            Inr (Node (info (attach tr leaf)) (children (attach tr leaf) @ new), st')"
         "\<forall>x \<in> set new. built x"
         "concat (map shape new) =
            map proj (preorder_list (depth_plus1 (depth (info (attach tr leaf)))) cs)"
      by blast
    have "fromObject_loop (c # cs) tr st =
            Inr (Node (info tr) (children tr @ (adopt tr leaf # new)), st')"
      using True nl r(1) by (simp add: attach_def)
    moreover have "\<forall>x \<in> set (adopt tr leaf # new). built x"
      using r(2) lf by (simp add: built_adopt)
    moreover have "concat (map shape (adopt tr leaf # new)) =
                     map proj (preorder_list ?lvl (c # cs))"
      using r(3) lf True by (simp add: shape_adopt preorder_unfold proj_def attach_def)
    ultimately show ?thesis by blast
  next
    case False
    from Cons.prems[of c tr st] obtain sub s1 where
      s: "fromObject (DObj c) (Some tr) st = Inr (sub, s1)"
         "cls (info sub) = TreeC" "data (info sub) = Some (props c)"
         "\<forall>x \<in> set (children sub). built x"
         "concat (map shape (children sub)) =
            map proj (preorder_list (Suc ?lvl) (kids_list c))"
      by auto
    from rest[of "attach tr sub" s1] obtain new st' where
      r: "fromObject_loop cs (attach tr sub) s1 =
            Inr (Node (info (attach tr sub)) (children (attach tr sub) @ new), st')"
         "\<forall>x \<in> set new. built x"
         "concat (map shape new) =
            map proj (preorder_list (depth_plus1 (depth (info (attach tr sub)))) cs)"
      by blast
    have "fromObject_loop (c # cs) tr st =
            Inr (Node (info tr) (children tr @ (adopt tr sub # new)), st')"
      using False s(1) r(1) by (simp add: attach_def)
    moreover have "\<forall>x \<in> set (adopt tr sub # new). built x"
      using r(2) s(2,4) by (simp add: built_adopt)
    moreover have "concat (map shape (adopt tr sub # new)) =
                     map proj (preorder_list ?lvl (c # cs))"
      using r(3) s(2,3,5) False
      by (simp add: shape_adopt preorder_unfold proj_def attach_def)
    ultimately show ?thesis by blast
  qed
qed


lemma newTree_facts:
  "cls (info (fst (newTree (Some d) st))) = TreeC"
  "data (info (fst (newTree (Some d) st))) = Some d"
  "children (fst (newTree (Some d) st)) = []"
  by (simp_all add: newTree_def chooseId_def getUID_def split: option.splits prod.splits)

lemma fromObject_obj_shape:
  "\<exists>sub st'. fromObject (DObj h) (Some par) st = Inr (sub, st') \<and>
        cls (info sub) = TreeC \<and> data (info sub) = Some (props h) \<and>
        (\<forall>x \<in> set (children sub). built x) \<and>
        concat (map shape (children sub)) =
          map proj (preorder_list (Suc (depth_plus1 (depth (info par)))) (kids_list h))"
proof (induction h arbitrary: par st)
  case (HObj p ks)
  obtain t0 s1 where nt: "newTree (Some p) st = (t0, s1)" by (cases "newTree (Some p) st")
  from newTree_facts[of p st] nt
  have t0: "cls (info t0) = TreeC" "data (info t0) = Some p" "children t0 = []" by simp_all
  let ?t = "Node ((info t0)\<lparr>depth := Some (depth_plus1 (depth (info par)))\<rparr>) (children t0)"
  let ?cs = "kids_list (HObj p ks)"
  have kid: "\<exists>sub st'. fromObject (DObj c) (Some q) s = Inr (sub, st') \<and>
        cls (info sub) = TreeC \<and> data (info sub) = Some (props c) \<and>
        (\<forall>x \<in> set (children sub). built x) \<and>
        concat (map shape (children sub)) =
          map proj (preorder_list (Suc (depth_plus1 (depth (info q)))) (kids_list c))"
    if "c \<in> set ?cs" for c q s
  proof -
    from that obtain cs where "ks = Some cs" "c \<in> set cs"
      by (cases ks) (auto simp: kids_list_def)
    then show ?thesis using HObj.IH[of cs c q s] by simp
  qed
  from fromObject_loop_shape[of ?cs ?t s1, OF kid] obtain new st' where
    r: "fromObject_loop ?cs ?t s1 = Inr (Node (info ?t) (children ?t @ new), st')"
       "\<forall>x \<in> set new. built x"
       "concat (map shape new) = map proj (preorder_list (depth_plus1 (depth (info ?t))) ?cs)"
    by blast
  have "fromObject (DObj (HObj p ks)) (Some par) st = Inr (Node (info ?t) new, st')"
    using nt r(1) t0(3) by (simp add: kids_list_def)
  moreover have "depth_plus1 (depth (info ?t)) = Suc (depth_plus1 (depth (info par)))"
    by (simp add: depth_plus1_def)
  ultimately show ?case
    using r(2,3) t0 by (intro exI[of _ "Node (info ?t) new"] exI[of _ st']) simp
qed


lemma depth_of_rows:
  assumes "map (\<lambda>m. (cls (info m), data (info m), depth (info m))) ns = map proj P"
    and "list_all (\<lambda>(h, lvl). js_get (props h) ''depth'' = None) P"
  shows "map (\<lambda>m. js_get (toItem m) ''depth'') ns = map (\<lambda>(h, lvl). Some (Num (int lvl))) P"
  using assms
proof (induction ns arbitrary: P)
  case Nil
  then show ?case by simp
next
  case (Cons m ns)
  then obtain x P' where P: "P = x # P'" by (cases P) auto
  obtain h lvl where x: "x = (h, lvl)" by (cases x)
  from Cons.prems P x have m: "data (info m) = Some (props h)" "depth (info m) = Some lvl"
    and nodepth: "js_get (props h) ''depth'' = None"
    by (simp_all add: proj_def)
  have "js_get (toItem m) ''depth'' = Some (Num (int lvl))"
    using m nodepth by (simp add: js_get_toItem js_get_structural depth_val_def)
  moreover have "map (\<lambda>m. js_get (toItem m) ''depth'') ns =
                   map (\<lambda>(h, lvl). Some (Num (int lvl))) P'"
    using Cons.prems P by (intro Cons.IH) simp_all
  ultimately show ?case using P x by simp
qed

text \<open>
  C1. For every well-formed nested hierarchy \<open>H\<close>, \<^verbatim>\<open>Tree.fromObject\<close> succeeds and
  \<^verbatim>\<open>toData\<close> of the built root yields the items of the built nodes in pre-order, the
  root itself omitted. These nodes are the objects of \<open>H\<close> in pre-order, children in
  input order: a Leaf for an object of kind \<open>file\<close> and a Tree otherwise, each holding
  its object's data and its nesting level as depth. Every item's \<open>depth\<close> is the nesting
  level of its object, \<open>1\<close> at the top level.
\<close>

theorem fromObject_toData_preorder:
  assumes "wellformed H"
  shows "\<exists>root st' its.
           fromObject (DArr H) parent st = Inr (root, st') \<and>
           toData root = Rows its \<and>
           its = map toItem (tl (nodes root)) \<and>
           map (\<lambda>n. cls (info n)) (tl (nodes root)) =
             map (\<lambda>(h, lvl). if js_get (props h) ''kind'' = Some FILE then LeafC else TreeC)
               (preorder_list 1 H) \<and>
           map (\<lambda>n. data (info n)) (tl (nodes root)) =
             map (\<lambda>(h, lvl). Some (props h)) (preorder_list 1 H) \<and>
           map (\<lambda>n. depth (info n)) (tl (nodes root)) =
             map (\<lambda>(h, lvl). Some lvl) (preorder_list 1 H) \<and>
           map (\<lambda>it. js_get it ''depth'') its =
             map (\<lambda>(h, lvl). Some (Num (int lvl))) (preorder_list 1 H)"
proof -
  obtain r0 s1 where nt: "newTree None st = (r0, s1)" by (cases "newTree None st")
  then have r0: "cls (info r0) = TreeC" "depth (info r0) = Some 0" "children r0 = []"
    by (auto simp: newTree_def)
  from fromObject_loop_shape[of H r0 s1, OF fromObject_obj_shape] obtain new st' where
    r: "fromObject_loop H r0 s1 = Inr (Node (info r0) (children r0 @ new), st')"
       "\<forall>x \<in> set new. built x"
       "concat (map shape new) = map proj (preorder_list (depth_plus1 (depth (info r0))) H)"
    by blast
  let ?root = "Node (info r0) new"
  let ?ns = "concat (map nodes new)"
  let ?P = "preorder_list 1 H"
  have fo: "fromObject (DArr H) parent st = Inr (?root, st')"
    using nt r(1) r0(3) by simp
  have "map rows new = map (\<lambda>c. map toItem (nodes c)) new"
    using r(2) by (intro map_cong refl rows_nodes) simp
  then have "concat (map rows new) = concat (map (\<lambda>c. map toItem (nodes c)) new)"
    by (rule arg_cong)
  also have "\<dots> = map toItem ?ns"
    by (simp add: map_concat comp_def)
  finally have rn: "concat (map rows new) = map toItem ?ns" .
  have td: "toData ?root = Rows (map toItem ?ns)"
    using r0(1,2) rn toData_into_rows(1)[of ?root "[]"] by (simp add: toData_def)
  have tl: "tl (nodes ?root) = ?ns" by simp
  have sh: "map (\<lambda>m. (cls (info m), data (info m), depth (info m))) ?ns = map proj ?P"
    using r(3) r0(2) by (simp add: shape_def[abs_def] map_concat comp_def depth_plus1_def)
  have "map (\<lambda>n. data (info n)) ?ns =
          map (fst \<circ> snd) (map (\<lambda>m. (cls (info m), data (info m), depth (info m))) ?ns)"
    by simp
  also have "\<dots> = map (\<lambda>(h, lvl). Some (props h)) ?P"
    unfolding sh by (simp add: proj_def case_prod_beta)
  finally have dat: "map (\<lambda>n. data (info n)) ?ns = map (\<lambda>(h, lvl). Some (props h)) ?P" .
  have "map (\<lambda>n. cls (info n)) ?ns =
          map fst (map (\<lambda>m. (cls (info m), data (info m), depth (info m))) ?ns)"
    by simp
  also have "\<dots> = map (\<lambda>(h, lvl). if js_get (props h) ''kind'' = Some FILE then LeafC else TreeC) ?P"
    unfolding sh by (simp add: proj_def case_prod_beta)
  finally have cl: "map (\<lambda>n. cls (info n)) ?ns =
      map (\<lambda>(h, lvl). if js_get (props h) ''kind'' = Some FILE then LeafC else TreeC) ?P" .
  have "map (\<lambda>n. depth (info n)) ?ns =
          map (snd \<circ> snd) (map (\<lambda>m. (cls (info m), data (info m), depth (info m))) ?ns)"
    by simp
  also have "\<dots> = map (\<lambda>(h, lvl). Some lvl) ?P"
    unfolding sh by (simp add: proj_def case_prod_beta)
  finally have dep: "map (\<lambda>n. depth (info n)) ?ns = map (\<lambda>(h, lvl). Some lvl) ?P" .
  have "map (\<lambda>m. js_get (toItem m) ''depth'') ?ns = map (\<lambda>(h, lvl). Some (Num (int lvl))) ?P"
    using sh assms by (intro depth_of_rows) (simp_all add: wellformed_def)
  then have idep: "map (\<lambda>it. js_get it ''depth'') (map toItem ?ns) =
                     map (\<lambda>(h, lvl). Some (Num (int lvl))) ?P"
    by (simp add: comp_def)
  show ?thesis
    apply (rule exI[of _ ?root], rule exI[of _ st'], rule exI[of _ "map toItem ?ns"])
    unfolding tl
    apply (intro conjI fo td refl cl dat dep idep)
    done
qed

theorem fromObject_toData_preorder_witness:
  "wellformed scenario \<and>
   (\<exists>root st' its.
      fromObject (DArr scenario) None \<lparr>idCounter = 0, nextAddr = 0\<rparr> = Inr (root, st') \<and>
      toData root = Rows its \<and>
      map (\<lambda>n. data (info n)) (tl (nodes root)) =
        [Some [(''name'', Str ''docs''), (''kind'', Str ''folder'')],
         Some [(''name'', Str ''a.txt''), (''kind'', Str ''file'')],
         Some [(''name'', Str ''b.txt''), (''kind'', Str ''file'')]] \<and>
      map (\<lambda>it. js_get it ''depth'') its = [Some (Num 1), Some (Num 2), Some (Num 1)])"
proof -
  have po: "preorder_list 1 scenario =
      [(HObj [(''name'', Str ''docs''), (''kind'', Str ''folder'')]
          (Some [HObj [(''name'', Str ''a.txt''), (''kind'', Str ''file'')] None]), 1),
       (HObj [(''name'', Str ''a.txt''), (''kind'', Str ''file'')] None, 2),
       (HObj [(''name'', Str ''b.txt''), (''kind'', Str ''file'')] None, 1)]"
    by (simp add: scenario_def js_get_def FILE_def)
  have wf: "wellformed scenario"
    unfolding wellformed_def po by (simp add: js_get_def)
  from fromObject_toData_preorder[OF wf, of None "\<lparr>idCounter = 0, nextAddr = 0\<rparr>"]
  obtain root st' its where
    "fromObject (DArr scenario) None \<lparr>idCounter = 0, nextAddr = 0\<rparr> = Inr (root, st')"
    "toData root = Rows its"
    "map (\<lambda>n. data (info n)) (tl (nodes root)) =
       map (\<lambda>(h, lvl). Some (props h)) (preorder_list 1 scenario)"
    "map (\<lambda>it. js_get it ''depth'') its =
       map (\<lambda>(h, lvl). Some (Num (int lvl))) (preorder_list 1 scenario)"
    by (elim exE conjE)
  then have "\<exists>root st' its.
      fromObject (DArr scenario) None \<lparr>idCounter = 0, nextAddr = 0\<rparr> = Inr (root, st') \<and>
      toData root = Rows its \<and>
      map (\<lambda>n. data (info n)) (tl (nodes root)) =
        [Some [(''name'', Str ''docs''), (''kind'', Str ''folder'')],
         Some [(''name'', Str ''a.txt''), (''kind'', Str ''file'')],
         Some [(''name'', Str ''b.txt''), (''kind'', Str ''file'')]] \<and>
      map (\<lambda>it. js_get it ''depth'') its = [Some (Num 1), Some (Num 2), Some (Num 1)]"
    unfolding po by (intro exI[of _ root] exI[of _ st'] exI[of _ its]) simp
  with wf show ?thesis by (rule conjI)
qed

section \<open>Collapsing a subtree\<close>

lemma idx_of_ids: "ids dv = ids dv' \<Longrightarrow> idx_of k dv = idx_of k dv'"
proof (induction dv arbitrary: dv')
  case Nil
  then show ?case by (simp add: ids_def)
next
  case (Cons it its)
  then obtain it' its' where d: "dv' = it' # its'" by (cases dv') (auto simp: ids_def)
  with Cons.prems have "js_get it ''id'' = js_get it' ''id''" "ids its = ids its'"
    by (simp_all add: ids_def)
  with Cons.IH[of its'] d show ?case by simp
qed

lemma length_ids: "ids dv = ids dv' \<Longrightarrow> length dv = length dv'"
  by (metis ids_def length_map)

lemma ids_setProps: "idp f \<Longrightarrow> ids (setProps ix f dv) = ids dv"
proof (cases "ix < length dv")
  case True
  assume "idp f"
  with True show ?thesis
    by (simp add: setProps_def ids_def idp_def map_update list_update_same_conv)
next
  case False
  then have "dv[ix := f (dv ! ix)] = dv" by (intro list_update_beyond) simp
  then show ?thesis by (simp add: setProps_def)
qed

lemma ids_hit: "idp f \<Longrightarrow> ids (hit f m dv) = ids dv"
  by (simp add: hit_def ids_setProps split: option.splits)

lemma ids_touch: "(\<And>m. idp (g m)) \<Longrightarrow> ids (touch g ms dv) = ids dv"
  by (induction ms arbitrary: dv) (simp_all add: touch_def ids_hit)

lemma idp_hideItem: "idp (hideItem m)"
  by (simp add: idp_def hideItem_def js_get_set split: cls.splits)

lemma hit_lookup:
  assumes "idp f"
  shows "getItemById (hit f m dv) (Some k) =
           (if k = nid (info m) then map_option f (getItemById dv (Some k))
            else getItemById dv (Some k))"
proof (cases "idx_of (nid (info m)) dv")
  case None
  then show ?thesis by (simp add: hit_def getItemById_def getIdxById_def)
next
  case (Some ix)
  from idx_of_Some[OF Some] have ix: "ix < length dv" "js_get (dv ! ix) ''id'' = Some (nid (info m))"
    by simp_all
  have same: "idx_of k (setProps ix f dv) = idx_of k dv"
    by (rule idx_of_ids) (simp add: ids_setProps assms)
  show ?thesis
  proof (cases "idx_of k dv")
    case None
    with \<open>idx_of (nid (info m)) dv = Some ix\<close> have "k \<noteq> nid (info m)" by auto
    with same None \<open>idx_of (nid (info m)) dv = Some ix\<close> show ?thesis
      by (simp add: hit_def getItemById_def getIdxById_def)
  next
    case (Some j)
    from idx_of_Some[OF Some] have j: "j < length dv" "js_get (dv ! j) ''id'' = Some k"
      by simp_all
    have "j = ix" if "k = nid (info m)" using that Some \<open>idx_of (nid (info m)) dv = Some ix\<close> by simp
    moreover have "j \<noteq> ix" if "k \<noteq> nid (info m)" using that ix(2) j(2) by auto
    ultimately show ?thesis
      using same Some \<open>idx_of (nid (info m)) dv = Some ix\<close> ix(1) j(1)
      by (auto simp: hit_def getItemById_def getIdxById_def setProps_def)
  qed
qed

lemma touch_lookup_other:
  assumes "\<And>m. idp (g m)" and "k \<notin> set (node_ids ms)"
  shows "getItemById (touch g ms dv) (Some k) = getItemById dv (Some k)"
  using assms(2)
proof (induction ms arbitrary: dv)
  case Nil
  then show ?case by (simp add: touch_def)
next
  case (Cons m ms)
  have "getItemById (touch g (m # ms) dv) (Some k) = getItemById (touch g ms (hit (g m) m dv)) (Some k)"
    by (simp add: touch_def)
  also have "\<dots> = getItemById (hit (g m) m dv) (Some k)"
    using Cons by (simp add: node_ids_def)
  also have "\<dots> = getItemById dv (Some k)"
    using Cons.prems by (simp add: hit_lookup assms(1) node_ids_def)
  finally show ?case .
qed

lemma touch_lookup_in:
  assumes "\<And>m. idp (g m)" and "distinct (node_ids ms)" and "m \<in> set ms"
  shows "getItemById (touch g ms dv) (Some (nid (info m))) =
           map_option (g m) (getItemById dv (Some (nid (info m))))"
  using assms(2,3)
proof (induction ms arbitrary: dv)
  case Nil
  then show ?case by simp
next
  case (Cons x ms)
  have step: "touch g (x # ms) dv = touch g ms (hit (g x) x dv)"
    by (simp add: touch_def)
  show ?case
  proof (cases "m = x")
    case True
    with Cons.prems have "nid (info m) \<notin> set (node_ids ms)" by (simp add: node_ids_def)
    then have "getItemById (touch g ms (hit (g x) x dv)) (Some (nid (info m))) =
                 getItemById (hit (g x) x dv) (Some (nid (info m)))"
      by (rule touch_lookup_other[OF assms(1)])
    with True step show ?thesis by (simp add: hit_lookup assms(1))
  next
    case False
    with Cons.prems have m: "m \<in> set ms" "distinct (node_ids ms)"
      and nx: "nid (info x) \<notin> set (node_ids ms)"
      by (simp_all add: node_ids_def)
    from m(1) have "nid (info m) \<in> set (node_ids ms)" by (simp add: node_ids_def)
    with nx have ne: "nid (info m) \<noteq> nid (info x)" by auto
    from Cons.IH[OF m(2) m(1)] step ne show ?thesis
      by (simp add: hit_lookup assms(1))
  qed
qed


lemma idp_collapseSelf: "idp (collapseSelf m hs)"
  by (simp add: idp_def collapseSelf_def js_get_set split: cls.splits)

lemma collapseSelf_True: "collapseSelf m True = hideItem m"
  by (rule ext) (simp add: collapseSelf_def hideItem_def)

lemma touch_append: "touch g (xs @ ys) dv = touch g ys (touch g xs dv)"
  by (simp add: touch_def)

lemma touch_Cons: "touch g (x # xs) dv = touch g xs (hit (g x) x dv)"
  by (simp add: touch_def)

lemma in_store_ids:
  assumes "ids dv' = ids dv"
  shows "in_store n dv' = in_store n dv"
proof -
  have "idx_of k dv' = idx_of k dv" for k
    by (rule idx_of_ids[OF assms])
  then show ?thesis unfolding in_store_def by simp
qed

lemma in_store_child: "in_store (Node i cs) dv \<Longrightarrow> c \<in> set cs \<Longrightarrow> in_store c dv"
  by (auto simp: in_store_def list_all_iff)

lemma in_store_self:
  "in_store (Node i cs) dv \<Longrightarrow>
     dataView i \<and> idx_of (nid i) dv \<noteq> None \<and> (cls i = LeafC \<longrightarrow> cs = [])"
  by (auto simp: in_store_def)

lemma collapse_children_touch:
  assumes "\<And>c dv. c \<in> set cs \<Longrightarrow> in_store c dv \<Longrightarrow>
             collapse c True dv = Inr (touch hideItem (nodes c) dv)"
    and "\<forall>c \<in> set cs. in_store c dv"
  shows "collapse_children cs dv = Inr (touch hideItem (concat (map nodes cs)) dv)"
  using assms
proof (induction cs arbitrary: dv)
  case Nil
  then show ?case by (simp add: touch_def)
next
  case (Cons c cs)
  let ?dv1 = "touch hideItem (nodes c) dv"
  have c: "collapse c True dv = Inr ?dv1"
    by (rule Cons.prems(1)) (use Cons.prems(2) in simp_all)
  have "ids ?dv1 = ids dv" by (simp add: ids_touch idp_hideItem)
  then have st: "\<forall>x \<in> set cs. in_store x ?dv1"
    using Cons.prems(2) in_store_ids[of ?dv1 dv] by simp
  have "collapse_children cs ?dv1 = Inr (touch hideItem (concat (map nodes cs)) ?dv1)"
  proof (rule Cons.IH)
    fix x dv'
    assume "x \<in> set cs" "in_store x dv'"
    then show "collapse x True dv' = Inr (touch hideItem (nodes x) dv')"
      by (intro Cons.prems(1)) simp_all
  next
    show "\<forall>x \<in> set cs. in_store x ?dv1" by (rule st)
  qed
  with c show ?case by (simp add: touch_append)
qed

lemma collapse_touch:
  "in_store n dv \<Longrightarrow>
     collapse n hs dv = Inr (touch hideItem (descendants n) (hit (collapseSelf n hs) n dv))"
proof (induction n arbitrary: dv hs)
  case (Node i cs)
  from in_store_self[OF Node.prems] obtain ix where
    ix: "dataView i" "idx_of (nid i) dv = Some ix" and leaf: "cls i = LeafC \<longrightarrow> cs = []"
    by auto
  let ?dv1 = "hit (collapseSelf (Node i cs) hs) (Node i cs) dv"
  show ?case
  proof (cases "cls i")
    case LeafC
    with leaf ix show ?thesis
      by (simp add: getItem_def getIdxById_def hit_def collapseSelf_def[abs_def]
          descendants_def touch_def)
  next
    case TreeC
    have kid: "collapse c True dv' = Inr (touch hideItem (nodes c) dv')"
      if "c \<in> set cs" "in_store c dv'" for c dv'
    proof -
      have "nodes c = c # descendants c" by (cases c) (simp add: descendants_def)
      with Node.IH[OF that, of True] show ?thesis
        by (simp add: collapseSelf_True touch_Cons)
    qed
    have "ids ?dv1 = ids dv" by (simp add: ids_hit idp_collapseSelf)
    then have "\<forall>c \<in> set cs. in_store c ?dv1"
      using Node.prems in_store_ids[of ?dv1 dv] by (auto intro: in_store_child)
    from collapse_children_touch[of cs ?dv1, OF kid this]
    have "collapse_children cs ?dv1 = Inr (touch hideItem (concat (map nodes cs)) ?dv1)"
      by simp
    moreover have "?dv1 = (if hs then setProps ix (js_set ''_hidden'' (Bool True)) dv
                  else setProps ix (\<lambda>it. js_set ''_hidden'' (Bool False)
                                            (js_set ''_collapsed'' (Bool True) it)) dv)"
      using ix TreeC by (simp add: hit_def collapseSelf_def[abs_def])
    ultimately show ?thesis
      using ix TreeC by (simp add: getItem_def getIdxById_def descendants_def)
  qed
qed


lemma node_ids_mem: "m \<in> set ms \<Longrightarrow> nid (info m) \<in> set (node_ids ms)"
  by (simp add: node_ids_def)

lemma nodes_unfold: "nodes n = n # descendants n"
  by (cases n) (simp add: descendants_def)

lemma in_store_lookup:
  assumes "in_store n dv" and "m \<in> set (nodes n)"
  shows "\<exists>it. getItemById dv (Some (nid (info m))) = Some it"
proof -
  from assms have "idx_of (nid (info m)) dv \<noteq> None"
    by (auto simp: in_store_def list_all_iff)
  then show ?thesis by (auto simp: getItemById_def getIdxById_def)
qed

lemma hideItem_flags:
  "js_get (hideItem m it) ''_hidden'' = Some (Bool True)"
  "cls (info m) = TreeC \<Longrightarrow> js_get (hideItem m it) ''_collapsed'' = js_get it ''_collapsed''"
  by (simp_all add: hideItem_def js_get_set split: cls.splits)

text \<open>
  C2. For a Tree \<open>N\<close> whose subtree is materialized in the store,
  \<^verbatim>\<open>collapse(hideSelf)\<close> succeeds. With \<open>hideSelf\<close> it sets \<open>_hidden\<close> of
  \<open>N\<close>'s item to true and leaves its \<open>_collapsed\<close> alone; without, it sets
  \<open>_collapsed\<close> to true and \<open>_hidden\<close> to false, so \<open>N\<close>'s row passes the filter.
  The item of every descendant gets \<open>_hidden = true\<close> and no longer passes the filter;
  the \<open>_collapsed\<close> flag of a descendant folder is what it was. Rows of other ids are
  unchanged.
\<close>

theorem collapse_hides_descendants:
  assumes "cls (info N) = TreeC" and "materialized N dv"
  shows "\<exists>dv' it0 it'.
           collapse N hideSelf dv = Inr dv' \<and> ids dv' = ids dv \<and>
           getItemById dv (Some (nid (info N))) = Some it0 \<and>
           getItemById dv' (Some (nid (info N))) = Some it' \<and>
           (if hideSelf then
              js_get it' ''_hidden'' = Some (Bool True) \<and>
              js_get it' ''_collapsed'' = js_get it0 ''_collapsed''
            else
              js_get it' ''_collapsed'' = Some (Bool True) \<and>
              js_get it' ''_hidden'' = Some (Bool False) \<and> collapseFilter it') \<and>
           (\<forall>m \<in> set (descendants N). \<exists>d0 d'.
              getItemById dv (Some (nid (info m))) = Some d0 \<and>
              getItemById dv' (Some (nid (info m))) = Some d' \<and>
              js_get d' ''_hidden'' = Some (Bool True) \<and> \<not> collapseFilter d' \<and>
              (cls (info m) = TreeC \<longrightarrow> js_get d' ''_collapsed'' = js_get d0 ''_collapsed'')) \<and>
           (\<forall>k. k \<notin> set (node_ids (nodes N)) \<longrightarrow>
              getItemById dv' (Some k) = getItemById dv (Some k))"
proof -
  from assms(2) have st: "in_store N dv" and dist: "distinct (node_ids (nodes N))"
    by (simp_all add: materialized_def)
  let ?dv1 = "hit (collapseSelf N hideSelf) N dv"
  let ?dv' = "touch hideItem (descendants N) ?dv1"
  from dist have notin: "nid (info N) \<notin> set (node_ids (descendants N))"
    and ddist: "distinct (node_ids (descendants N))"
    by (simp_all add: nodes_unfold node_ids_def)
  have run: "collapse N hideSelf dv = Inr ?dv'"
    by (rule collapse_touch[OF st])
  have idseq: "ids ?dv' = ids dv"
    by (simp add: ids_touch ids_hit idp_hideItem idp_collapseSelf)
  from in_store_lookup[OF st, of N] obtain it0 where
    it0: "getItemById dv (Some (nid (info N))) = Some it0"
    by (auto simp: nodes_unfold)
  have "getItemById ?dv' (Some (nid (info N))) = getItemById ?dv1 (Some (nid (info N)))"
    by (rule touch_lookup_other[OF idp_hideItem notin])
  then have own: "getItemById ?dv' (Some (nid (info N))) = Some (collapseSelf N hideSelf it0)"
    using it0 by (simp add: hit_lookup idp_collapseSelf)
  have ownflags: "if hideSelf then
              js_get (collapseSelf N hideSelf it0) ''_hidden'' = Some (Bool True) \<and>
              js_get (collapseSelf N hideSelf it0) ''_collapsed'' = js_get it0 ''_collapsed''
            else
              js_get (collapseSelf N hideSelf it0) ''_collapsed'' = Some (Bool True) \<and>
              js_get (collapseSelf N hideSelf it0) ''_hidden'' = Some (Bool False) \<and>
              collapseFilter (collapseSelf N hideSelf it0)"
    using assms(1) by (simp add: collapseSelf_def js_get_set collapseFilter_def)
  have desc: "\<exists>d0 d'.
              getItemById dv (Some (nid (info m))) = Some d0 \<and>
              getItemById ?dv' (Some (nid (info m))) = Some d' \<and>
              js_get d' ''_hidden'' = Some (Bool True) \<and> \<not> collapseFilter d' \<and>
              (cls (info m) = TreeC \<longrightarrow> js_get d' ''_collapsed'' = js_get d0 ''_collapsed'')"
    if m: "m \<in> set (descendants N)" for m
  proof -
    from in_store_lookup[OF st, of m] m obtain d0 where
      d0: "getItemById dv (Some (nid (info m))) = Some d0"
      by (auto simp: nodes_unfold)
    from node_ids_mem[OF m] notin have ne: "nid (info m) \<noteq> nid (info N)"
      by auto
    have "getItemById ?dv' (Some (nid (info m))) =
            map_option (hideItem m) (getItemById ?dv1 (Some (nid (info m))))"
      by (rule touch_lookup_in[OF idp_hideItem ddist m])
    then have "getItemById ?dv' (Some (nid (info m))) = Some (hideItem m d0)"
      using d0 ne by (simp add: hit_lookup idp_collapseSelf)
    with d0 show ?thesis
      by (simp add: hideItem_flags collapseFilter_def)
  qed
  have other: "getItemById ?dv' (Some k) = getItemById dv (Some k)"
    if k: "k \<notin> set (node_ids (nodes N))" for k
  proof -
    from k have k1: "k \<notin> set (node_ids (descendants N))" and k2: "k \<noteq> nid (info N)"
      by (simp_all add: nodes_unfold node_ids_def)
    have "getItemById ?dv' (Some k) = getItemById ?dv1 (Some k)"
      by (rule touch_lookup_other[OF idp_hideItem k1])
    with k2 show ?thesis by (simp add: hit_lookup idp_collapseSelf)
  qed
  have desc': "\<forall>m \<in> set (descendants N). \<exists>d0 d'.
              getItemById dv (Some (nid (info m))) = Some d0 \<and>
              getItemById ?dv' (Some (nid (info m))) = Some d' \<and>
              js_get d' ''_hidden'' = Some (Bool True) \<and> \<not> collapseFilter d' \<and>
              (cls (info m) = TreeC \<longrightarrow> js_get d' ''_collapsed'' = js_get d0 ''_collapsed'')"
    using desc by (rule ballI)
  have other': "\<forall>k. k \<notin> set (node_ids (nodes N)) \<longrightarrow>
              getItemById ?dv' (Some k) = getItemById dv (Some k)"
    using other by (intro allI impI)
  show ?thesis
    by (intro exI[of _ ?dv'] exI[of _ it0] exI[of _ "collapseSelf N hideSelf it0"]
        conjI run idseq it0 own ownflags desc' other')
qed

theorem collapse_hides_descendants_witness:
  "cls (info docs_node) = TreeC \<and> materialized docs_node (store scenario_grid) \<and>
   (\<exists>dv'. collapse docs_node False (store scenario_grid) = Inr dv' \<and>
      row_names (visibleRows dv') = [Some (Str ''docs''), Some (Str ''b.txt'')])"
proof -
  have h1: "cls (info docs_node) = TreeC" by (simp add: docs_node_def)
  have h2: "materialized docs_node (store scenario_grid)"
    by (simp add: materialized_def in_store_def node_ids_def docs_node_def scenario_grid_def
        js_get_def)
  from collapse_hides_descendants[OF h1 h2, of False] obtain dv' where
    r: "collapse docs_node False (store scenario_grid) = Inr dv'"
    by (elim exE conjE)
  have "collapse docs_node False (store scenario_grid) =
          Inr [[(''depth'', Num 1), (''_node'', Ref 1), (''parentID'', Str ''root''),
                (''id'', Num 0), (''kind'', Str ''folder''), (''name'', Str ''docs''),
                (''_collapsed'', Bool True), (''_hidden'', Bool False)],
               [(''depth'', Num 2), (''_node'', Ref 2), (''parentID'', Num 0),
                (''id'', Num 1), (''kind'', Str ''file''), (''name'', Str ''a.txt''),
                (''_hidden'', Bool True), (''_collapsed'', Bool True)],
               [(''depth'', Num 1), (''_node'', Ref 3), (''parentID'', Str ''root''),
                (''id'', Num 2), (''kind'', Str ''file''), (''name'', Str ''b.txt'')]]"
    by (simp add: docs_node_def scenario_grid_def getItem_def getIdxById_def js_get_def
        setProps_def js_set_def)
  with r have "row_names (visibleRows dv') = [Some (Str ''docs''), Some (Str ''b.txt'')]"
    by (auto simp: row_names_def visibleRows_def collapseFilter_def js_get_def)
  with h1 h2 r show ?thesis by blast
qed

section \<open>Expanding a subtree\<close>

lemma idp_revealItem: "idp (revealItem m)"
  by (simp add: idp_def revealItem_def js_get_set split: cls.splits)

lemma idp_expandSelf: "idp (expandSelf m nf)"
  by (simp add: idp_def expandSelf_def js_get_set split: cls.splits)

lemma expandSelf_True: "expandSelf m True = revealItem m"
  by (rule ext) (simp add: expandSelf_def revealItem_def)

lemma subseq_concat_map:
  "(\<And>x. x \<in> set xs \<Longrightarrow> subseq (f x) (g x)) \<Longrightarrow> subseq (concat (map f xs)) (concat (map g xs))"
  by (induction xs) (auto intro: list_emb_append_mono)

lemma reached_subseq: "subseq (reached dv n) (nodes n)"
proof (induction n)
  case (Node i cs)
  then have "subseq (concat (map (reached dv) cs)) (concat (map nodes cs))"
    by (intro subseq_concat_map) simp
  then show ?case by simp
qed

lemma reached_subset: "set (reached dv n) \<subseteq> set (nodes n)"
proof
  fix x assume "x \<in> set (reached dv n)"
  with list_emb_set[OF reached_subseq[of dv n]] show "x \<in> set (nodes n)" by blast
qed

lemma node_ids_subseq: "subseq xs ys \<Longrightarrow> subseq (node_ids xs) (node_ids ys)"
  by (simp add: node_ids_def subseq_map)

lemma reached_distinct: "distinct (node_ids (nodes n)) \<Longrightarrow> distinct (node_ids (reached dv n))"
  using node_ids_subseq[OF reached_subseq, of dv n] subseqs_distinctD[of "node_ids (reached dv n)" "node_ids (nodes n)"]
  by simp

lemma reached_cong:
  "(\<And>m. m \<in> set (nodes n) \<Longrightarrow> children m \<noteq> [] \<Longrightarrow>
      marked_collapsed dv2 m = marked_collapsed dv m) \<Longrightarrow>
   reached dv2 n = reached dv n"
proof (induction n)
  case (Node i cs)
  have kids: "map (reached dv2) cs = map (reached dv) cs"
  proof (intro map_cong refl)
    fix c assume c: "c \<in> set cs"
    show "reached dv2 c = reached dv c"
    proof (rule Node.IH[OF c])
      fix m assume "m \<in> set (nodes c)" "children m \<noteq> []"
      with c show "marked_collapsed dv2 m = marked_collapsed dv m"
        by (intro Node.prems) auto
    qed
  qed
  show ?case
  proof (cases "cs = []")
    case True
    then show ?thesis by simp
  next
    case False
    then have "marked_collapsed dv2 (Node i cs) = marked_collapsed dv (Node i cs)"
      by (intro Node.prems) simp_all
    with kids show ?thesis by (simp del: map_eq_conv)
  qed
qed


lemma node_ids_append [simp]: "node_ids (xs @ ys) = node_ids xs @ node_ids ys"
  by (simp add: node_ids_def)

lemma node_ids_Cons [simp]: "node_ids (x # xs) = nid (info x) # node_ids xs"
  by (simp add: node_ids_def)

lemma node_ids_Nil [simp]: "node_ids [] = []"
  by (simp add: node_ids_def)

lemma node_ids_concat_mem:
  "c \<in> set cs \<Longrightarrow> m \<in> set (f c) \<Longrightarrow> nid (info m) \<in> set (node_ids (concat (map f cs)))"
  by (induction cs) (auto simp: node_ids_mem)

lemma lookup_idx: "idx_of k dv = Some ix \<Longrightarrow> getItemById dv (Some k) = Some (dv ! ix)"
  by (simp add: getItemById_def getIdxById_def)

lemma marked_collapsed_cong:
  "getItemById dv2 (Some (nid (info m))) = getItemById dv (Some (nid (info m))) \<Longrightarrow>
   marked_collapsed dv2 m = marked_collapsed dv m"
  by (simp add: marked_collapsed_def)

lemma touch_nth_other:
  assumes "\<And>m. idp (g m)" and "idx_of k dv = Some ix" and "k \<notin> set (node_ids ms)"
  shows "touch g ms dv ! ix = dv ! ix"
proof -
  have "ids (touch g ms dv) = ids dv" by (rule ids_touch[OF assms(1)])
  then have "idx_of k (touch g ms dv) = Some ix"
    using idx_of_ids[of "touch g ms dv" dv k] assms(2) by simp
  then have "getItemById (touch g ms dv) (Some k) = Some (touch g ms dv ! ix)"
    by (rule lookup_idx)
  moreover have "getItemById (touch g ms dv) (Some k) = getItemById dv (Some k)"
    by (rule touch_lookup_other[OF assms(1) assms(3)])
  ultimately show ?thesis using lookup_idx[OF assms(2)] by simp
qed

lemma setProps_twice:
  "ix < length dv \<Longrightarrow> setProps ix f (setProps ix g dv) = setProps ix (\<lambda>it. f (g it)) dv"
  by (simp add: setProps_def)

lemma expand_children_touch:
  assumes kid: "\<And>c dv. c \<in> set cs \<Longrightarrow> materialized c dv \<Longrightarrow>
                  expand c True dv = Inr (touch revealItem (reached dv c) dv)"
    and st: "\<forall>c \<in> set cs. in_store c dv"
    and dist: "distinct (node_ids (concat (map nodes cs)))"
    and ix: "idx_of k dv = Some ix"
    and notin: "k \<notin> set (node_ids (concat (map nodes cs)))"
  shows "expand_children cs ix dv =
           Inr (if truthy (js_get (dv ! ix) ''_collapsed'') then dv
                else touch revealItem (concat (map (reached dv) cs)) dv)"
  using assms
proof (induction cs arbitrary: dv)
  case Nil
  then show ?case by (simp add: touch_def)
next
  case (Cons c cs)
  have kid': "expand x True dv' = Inr (touch revealItem (reached dv' x) dv')"
    if "x \<in> set cs" "materialized x dv'" for x dv'
    using that by (intro Cons.prems(1)) simp_all
  have dist': "distinct (node_ids (concat (map nodes cs)))"
    and distc: "distinct (node_ids (nodes c))"
    and disj: "set (node_ids (nodes c)) \<inter> set (node_ids (concat (map nodes cs))) = {}"
    using Cons.prems(3) by simp_all
  have notin': "k \<notin> set (node_ids (concat (map nodes cs)))"
    and notinc: "k \<notin> set (node_ids (nodes c))"
    using Cons.prems(5) by simp_all
  show ?case
  proof (cases "truthy (js_get (dv ! ix) ''_collapsed'')")
    case True
    have "expand_children cs ix dv =
            Inr (if truthy (js_get (dv ! ix) ''_collapsed'') then dv
                 else touch revealItem (concat (map (reached dv) cs)) dv)"
      using Cons.prems(2) by (intro Cons.IH kid' dist' Cons.prems(4) notin') simp_all
    with True show ?thesis by simp
  next
    case False
    let ?dv2 = "touch revealItem (reached dv c) dv"
    have matc: "materialized c dv"
      using Cons.prems(2) distc by (simp add: materialized_def)
    have c: "expand c True dv = Inr ?dv2"
      by (rule Cons.prems(1)) (use matc in simp_all)
    have idseq: "ids ?dv2 = ids dv" by (simp add: ids_touch idp_revealItem)
    have st2: "\<forall>x \<in> set cs. in_store x ?dv2"
      using Cons.prems(2) in_store_ids[OF idseq] by simp
    have ix2: "idx_of k ?dv2 = Some ix"
      using idx_of_ids[OF idseq, of k] Cons.prems(4) by simp
    have sub: "set (node_ids (reached dv c)) \<subseteq> set (node_ids (nodes c))"
      using reached_subset[of dv c] by (auto simp: node_ids_def)
    have same_ix: "?dv2 ! ix = dv ! ix"
      using sub notinc by (intro touch_nth_other[OF idp_revealItem Cons.prems(4)]) auto
    have rest: "expand_children cs ix ?dv2 =
            Inr (if truthy (js_get (?dv2 ! ix) ''_collapsed'') then ?dv2
                 else touch revealItem (concat (map (reached ?dv2) cs)) ?dv2)"
      by (intro Cons.IH kid' dist' ix2 notin' st2)
    have "map (reached ?dv2) cs = map (reached dv) cs"
    proof (intro map_cong refl reached_cong marked_collapsed_cong)
      fix x m assume x: "x \<in> set cs" and m: "m \<in> set (nodes x)"
      from node_ids_concat_mem[of x cs m nodes, OF x m] disj sub
      have "nid (info m) \<notin> set (node_ids (reached dv c))" by auto
      then show "getItemById ?dv2 (Some (nid (info m))) = getItemById dv (Some (nid (info m)))"
        by (rule touch_lookup_other[OF idp_revealItem])
    qed
    with rest same_ix False c show ?thesis
      by (simp add: touch_append)
  qed
qed


lemma materialized_child:
  assumes "materialized (Node i cs) dv" and "c \<in> set cs"
  shows "materialized c dv"
proof -
  from assms(1) have st: "in_store (Node i cs) dv"
    and d: "distinct (node_ids (concat (map nodes cs)))"
    by (simp_all add: materialized_def)
  from assms(2) obtain xs ys where "cs = xs @ c # ys" by (auto simp: in_set_conv_decomp)
  with d have "distinct (node_ids (nodes c))" by simp
  with in_store_child[OF st assms(2)] show ?thesis by (simp add: materialized_def)
qed

lemma materialized_ids: "ids dv' = ids dv \<Longrightarrow> materialized n dv' = materialized n dv"
  using in_store_ids[of dv' dv n] by (simp add: materialized_def)

lemma expand_touch:
  "materialized n dv \<Longrightarrow>
     expand n nf dv =
       Inr (touch revealItem
              (if cls (info n) = TreeC \<and> \<not> (nf \<and> marked_collapsed dv n) then revealed dv n
               else [])
              (hit (expandSelf n nf) n dv))"
proof (induction n arbitrary: dv nf)
  case (Node i cs)
  let ?n = "Node i cs"
  from Node.prems have st: "in_store ?n dv" and dist: "distinct (node_ids (nodes ?n))"
    by (simp_all add: materialized_def)
  from in_store_self[OF st] obtain ix where
    ix: "dataView i" "idx_of (nid i) dv = Some ix" and leaf: "cls i = LeafC \<longrightarrow> cs = []"
    by auto
  from idx_of_Some[OF ix(2)] have lt: "ix < length dv" by simp
  let ?dv1 = "hit (expandSelf ?n nf) ?n dv"
  have dv1: "?dv1 = setProps ix (expandSelf ?n nf) dv"
    using ix by (simp add: hit_def)
  show ?case
  proof (cases "cls i")
    case LeafC
    with leaf ix show ?thesis
      by (simp add: getItem_def getIdxById_def hit_def expandSelf_def[abs_def] touch_def)
  next
    case TreeC
    have kid: "expand c True dv' = Inr (touch revealItem (reached dv' c) dv')"
      if c: "c \<in> set cs" and m: "materialized c dv'" for c dv'
    proof -
      from m have "in_store c dv'" by (simp add: materialized_def)
      then have lf: "cls (info c) = LeafC \<longrightarrow> children c = []"
        by (cases c) (auto dest: in_store_self)
      have "reached dv' c =
              c # (if cls (info c) = TreeC \<and> \<not> marked_collapsed dv' c then revealed dv' c else [])"
        using lf by (cases c; cases "cls (info c)") (auto simp: revealed_def)
      with Node.IH[OF c m, of True] show ?thesis
        by (simp add: expandSelf_True touch_Cons)
    qed
    have idseq: "ids ?dv1 = ids dv" by (simp add: ids_hit idp_expandSelf)
    have st1: "\<forall>c \<in> set cs. in_store c ?dv1"
      using in_store_ids[OF idseq] in_store_child[OF st] by simp
    have dist1: "distinct (node_ids (concat (map nodes cs)))"
      and notin: "nid i \<notin> set (node_ids (concat (map nodes cs)))"
      using dist by simp_all
    have ix1: "idx_of (nid i) ?dv1 = Some ix"
      using idx_of_ids[OF idseq, of "nid i"] ix(2) by simp
    have loop: "expand_children cs ix ?dv1 =
           Inr (if truthy (js_get (?dv1 ! ix) ''_collapsed'') then ?dv1
                else touch revealItem (concat (map (reached ?dv1) cs)) ?dv1)"
      by (rule expand_children_touch[OF kid st1 dist1 ix1 notin])
    have at: "?dv1 ! ix = expandSelf ?n nf (dv ! ix)"
      using lt by (simp add: dv1 setProps_def)
    have mk: "marked_collapsed dv ?n = truthy (js_get (dv ! ix) ''_collapsed'')"
      using lookup_idx[OF ix(2)] by (simp add: marked_collapsed_def)
    have tr: "truthy (js_get (?dv1 ! ix) ''_collapsed'') = (nf \<and> marked_collapsed dv ?n)"
      unfolding at mk using TreeC by (simp add: expandSelf_def js_get_set)
    have same: "map (reached ?dv1) cs = map (reached dv) cs"
    proof (intro map_cong refl reached_cong marked_collapsed_cong)
      fix c m assume c: "c \<in> set cs" and m: "m \<in> set (nodes c)"
      from node_ids_concat_mem[of c cs m nodes, OF c m] notin
      have "nid (info m) \<noteq> nid i" by auto
      then show "getItemById ?dv1 (Some (nid (info m))) = getItemById dv (Some (nid (info m)))"
        by (simp add: hit_lookup idp_expandSelf)
    qed
    have start: "setProps ix (js_set ''_hidden'' (Bool False))
                   (if \<not> nf then setProps ix (js_set ''_collapsed'' (Bool False)) dv else dv) = ?dv1"
      using lt TreeC ix(2) by (simp add: hit_def setProps_twice expandSelf_def[abs_def])
    have e: "expand ?n nf dv = expand_children cs ix ?dv1"
      using ix TreeC start by (simp add: getItem_def getIdxById_def)
    have res: "expand ?n nf dv =
                 Inr (if nf \<and> marked_collapsed dv ?n then ?dv1
                      else touch revealItem (concat (map (reached dv) cs)) ?dv1)"
      by (simp only: e loop tr same)
    have "(if nf \<and> marked_collapsed dv ?n then ?dv1
           else touch revealItem (concat (map (reached dv) cs)) ?dv1) =
          touch revealItem
              (if cls (info ?n) = TreeC \<and> \<not> (nf \<and> marked_collapsed dv ?n) then revealed dv ?n
               else [])
              ?dv1"
      using TreeC by (simp add: revealed_def touch_def)
    with res show ?thesis by (simp only:)
  qed
qed


lemma revealItem_flags:
  "js_get (revealItem m it) ''_hidden'' = Some (Bool False)"
  "cls (info m) = TreeC \<Longrightarrow> js_get (revealItem m it) ''_collapsed'' = js_get it ''_collapsed''"
  "cls (info m) = LeafC \<Longrightarrow> js_get (revealItem m it) ''_collapsed'' = Some (Bool False)"
  by (simp_all add: revealItem_def js_get_set split: cls.splits)

lemma reached_head: "c \<in> set (reached dv c)"
  by (cases c) simp

lemma revealed_subset: "set (revealed dv n) \<subseteq> set (descendants n)"
  using reached_subset by (fastforce simp: revealed_def descendants_def)

lemma revealed_subseq: "subseq (revealed dv n) (descendants n)"
  unfolding revealed_def descendants_def
  by (intro subseq_concat_map reached_subseq)

lemma revealed_distinct:
  assumes "distinct (node_ids (descendants n))"
  shows "distinct (node_ids (revealed dv n))"
  using node_ids_subseq[OF revealed_subseq, of dv n]
    subseqs_distinctD[of "node_ids (revealed dv n)" "node_ids (descendants n)"] assms
  by simp

lemma nodes_trans: "m \<in> set (nodes n) \<Longrightarrow> set (nodes m) \<subseteq> set (nodes n)"
proof (induction n)
  case (Node i cs)
  show ?case
  proof (cases "m = Node i cs")
    case True
    then show ?thesis by simp
  next
    case False
    with Node.prems obtain c where c: "c \<in> set cs" "m \<in> set (nodes c)" by auto
    from Node.IH[OF c] c(1) show ?thesis by auto
  qed
qed

lemma nodes_self: "n \<in> set (nodes n)"
  by (cases n) simp

lemma node_inj:
  assumes "distinct (node_ids ms)" "x \<in> set ms" "y \<in> set ms" "nid (info x) = nid (info y)"
  shows "x = y"
  using assms unfolding node_ids_def by (meson distinct_map inj_onD)

lemma below_collapsed_list:
  assumes IH: "\<And>c. c \<in> set cs \<Longrightarrow> distinct (node_ids (nodes c)) \<Longrightarrow>
                 m \<in> set (reached dv c) \<Longrightarrow> d \<notin> set (reached dv c)"
    and dcs: "distinct (node_ids (concat (map nodes cs)))"
    and m: "m \<in> set (concat (map (reached dv) cs))"
    and d: "d \<in> set (descendants m)"
  shows "d \<notin> set (concat (map (reached dv) cs))"
proof -
  from m obtain c where c: "c \<in> set cs" "m \<in> set (reached dv c)" by auto
  from c(1) obtain xs ys where cs: "cs = xs @ c # ys" by (auto simp: in_set_conv_decomp)
  from dcs cs have dc: "distinct (node_ids (nodes c))"
    and dx: "set (node_ids (concat (map nodes xs))) \<inter> set (node_ids (nodes c)) = {}"
    and dy: "set (node_ids (nodes c)) \<inter> set (node_ids (concat (map nodes ys))) = {}"
    by auto
  from c(2) reached_subset[of dv c] have mc: "m \<in> set (nodes c)" by auto
  from d have "d \<in> set (nodes m)" by (simp add: nodes_unfold)
  with nodes_trans[OF mc] have dcn: "d \<in> set (nodes c)" by auto
  then have idc: "nid (info d) \<in> set (node_ids (nodes c))" by (rule node_ids_mem)
  have IHc: "d \<notin> set (reached dv c)"
    by (rule IH[OF c(1) dc c(2)])
  have "d \<notin> set (reached dv c')" if c': "c' \<in> set cs" for c'
  proof (cases "c' = c")
    case True
    with IHc show ?thesis by simp
  next
    case False
    with c' cs have "c' \<in> set xs \<or> c' \<in> set ys" by auto
    then have "nid (info d) \<notin> set (node_ids (nodes c'))"
    proof
      assume "c' \<in> set xs"
      then have "set (node_ids (nodes c')) \<subseteq> set (node_ids (concat (map nodes xs)))"
        by (auto simp: node_ids_def)
      with dx idc show ?thesis by auto
    next
      assume "c' \<in> set ys"
      then have "set (node_ids (nodes c')) \<subseteq> set (node_ids (concat (map nodes ys)))"
        by (auto simp: node_ids_def)
      with dy idc show ?thesis by auto
    qed
    then have "d \<notin> set (nodes c')" using node_ids_mem by blast
    with reached_subset[of dv c'] show ?thesis by auto
  qed
  then show ?thesis by auto
qed

lemma below_collapsed_not_reached:
  assumes "distinct (node_ids (nodes n))" and "m \<in> set (reached dv n)"
    and "marked_collapsed dv m" and "d \<in> set (descendants m)"
  shows "d \<notin> set (reached dv n)"
  using assms
proof (induction n)
  case (Node i cs)
  let ?n = "Node i cs"
  from Node.prems(1) have notin: "nid i \<notin> set (node_ids (concat (map nodes cs)))"
    and dcs: "distinct (node_ids (concat (map nodes cs)))" by simp_all
  show ?case
  proof (cases "m = ?n")
    case True
    with Node.prems(3) have r: "reached dv ?n = [?n]" by simp
    from Node.prems(4) True have "nid (info d) \<in> set (node_ids (concat (map nodes cs)))"
      by (auto simp: descendants_def node_ids_def)
    with notin have "d \<noteq> ?n" by auto
    with r show ?thesis by simp
  next
    case False
    with Node.prems(2) have nm: "\<not> marked_collapsed dv ?n"
      and mm: "m \<in> set (concat (map (reached dv) cs))"
      by (auto split: if_splits)
    have sub: "set (descendants m) \<subseteq> set (concat (map nodes cs))"
    proof -
      from mm obtain c where c: "c \<in> set cs" "m \<in> set (reached dv c)" by auto
      with reached_subset[of dv c] have "m \<in> set (nodes c)" by auto
      from nodes_trans[OF this] c(1) show ?thesis by (auto simp: nodes_unfold)
    qed
    with Node.prems(4) have "d \<in> set (concat (map nodes cs))" by blast
    then have "nid (info d) \<in> set (node_ids (concat (map nodes cs)))"
      by (rule node_ids_mem)
    with notin have ne: "d \<noteq> ?n" by auto
    have "d \<notin> set (concat (map (reached dv) cs))"
    proof (rule below_collapsed_list[OF _ dcs mm Node.prems(4)])
      fix c assume "c \<in> set cs" "distinct (node_ids (nodes c))" "m \<in> set (reached dv c)"
      then show "d \<notin> set (reached dv c)"
        using Node.prems(3,4) by (intro Node.IH)
    qed
    with ne nm show ?thesis by simp
  qed
qed

lemma below_collapsed_not_revealed:
  assumes dist: "distinct (node_ids (nodes N))" and m: "m \<in> set (revealed dv N)"
    and mk: "marked_collapsed dv m" and d: "d \<in> set (descendants m)"
  shows "nid (info d) \<noteq> nid (info N) \<and> nid (info d) \<notin> set (node_ids (revealed dv N))"
proof -
  from dist have notin: "nid (info N) \<notin> set (node_ids (descendants N))"
    and dcs: "distinct (node_ids (concat (map nodes (children N))))"
    by (simp_all add: nodes_unfold descendants_def)
  from m have mm: "m \<in> set (concat (map (reached dv) (children N)))"
    by (simp add: revealed_def)
  have mN: "m \<in> set (descendants N)" using m revealed_subset[of dv N] by auto
  have dN: "d \<in> set (descendants N)"
  proof -
    from mN obtain c where c: "c \<in> set (children N)" "m \<in> set (nodes c)"
      by (auto simp: descendants_def)
    from d have "d \<in> set (nodes m)" by (simp add: nodes_unfold)
    with nodes_trans[OF c(2)] c(1) show ?thesis by (auto simp: descendants_def)
  qed
  with notin have ne: "nid (info d) \<noteq> nid (info N)"
    using node_ids_mem by fastforce
  have nr: "d \<notin> set (revealed dv N)"
    unfolding revealed_def
  proof (rule below_collapsed_list[OF _ dcs mm d])
    fix c assume "c \<in> set (children N)" "distinct (node_ids (nodes c))" "m \<in> set (reached dv c)"
    then show "d \<notin> set (reached dv c)"
      using mk d by (intro below_collapsed_not_reached)
  qed
  have "nid (info d) \<notin> set (node_ids (revealed dv N))"
  proof
    assume "nid (info d) \<in> set (node_ids (revealed dv N))"
    then obtain x where x: "x \<in> set (revealed dv N)" "nid (info x) = nid (info d)"
      by (auto simp: node_ids_def)
    from x(1) revealed_subset[of dv N] have "x \<in> set (descendants N)" by auto
    from node_inj[OF _ this dN x(2)] dist have "x = d" by (simp add: nodes_unfold)
    with x(1) nr show False by simp
  qed
  with ne show ?thesis by simp
qed

text \<open>
  C3, amended. For a Tree \<open>N\<close> whose subtree is materialized in the store, \<^verbatim>\<open>expand()\<close>
  succeeds and sets \<open>_collapsed\<close> and \<open>_hidden\<close> of \<open>N\<close>'s item to false. It then
  reaches every child of \<open>N\<close> and, below a child folder, goes on only where the folder's
  item is not marked collapsed. Every node reached gets \<open>_hidden = false\<close>; the
  \<open>_collapsed\<close> flag of a folder reached is what it was, while a file reached gets
  \<open>_collapsed = false\<close> as well. Every other row is unchanged, in particular the rows
  of all nodes below a folder that is still marked collapsed.
\<close>

theorem expand_reveals_children:
  assumes "cls (info N) = TreeC" and "materialized N dv"
  shows "\<exists>dv' it0 it'.
           expand N False dv = Inr dv' \<and> ids dv' = ids dv \<and>
           getItemById dv (Some (nid (info N))) = Some it0 \<and>
           getItemById dv' (Some (nid (info N))) = Some it' \<and>
           js_get it' ''_collapsed'' = Some (Bool False) \<and>
           js_get it' ''_hidden'' = Some (Bool False) \<and> collapseFilter it' \<and>
           set (children N) \<subseteq> set (revealed dv N) \<and>
           (\<forall>m \<in> set (revealed dv N). \<exists>d0 d'.
              getItemById dv (Some (nid (info m))) = Some d0 \<and>
              getItemById dv' (Some (nid (info m))) = Some d' \<and>
              js_get d' ''_hidden'' = Some (Bool False) \<and> collapseFilter d' \<and>
              (cls (info m) = TreeC \<longrightarrow> js_get d' ''_collapsed'' = js_get d0 ''_collapsed'') \<and>
              (cls (info m) = LeafC \<longrightarrow> js_get d' ''_collapsed'' = Some (Bool False))) \<and>
           (\<forall>k. k \<noteq> nid (info N) \<longrightarrow> k \<notin> set (node_ids (revealed dv N)) \<longrightarrow>
              getItemById dv' (Some k) = getItemById dv (Some k)) \<and>
           (\<forall>m \<in> set (revealed dv N). marked_collapsed dv m \<longrightarrow>
              (\<forall>d \<in> set (descendants m).
                 getItemById dv' (Some (nid (info d))) = getItemById dv (Some (nid (info d)))))"
proof -
  from assms(2) have st: "in_store N dv" and dist: "distinct (node_ids (nodes N))"
    by (simp_all add: materialized_def)
  let ?L = "revealed dv N"
  let ?dv1 = "hit (expandSelf N False) N dv"
  let ?dv' = "touch revealItem ?L ?dv1"
  from dist have notin0: "nid (info N) \<notin> set (node_ids (descendants N))"
    and ddist0: "distinct (node_ids (descendants N))"
    by (simp_all add: nodes_unfold)
  have sub: "set (node_ids ?L) \<subseteq> set (node_ids (descendants N))"
    using revealed_subset[of dv N] by (auto simp: node_ids_def)
  from notin0 sub have notin: "nid (info N) \<notin> set (node_ids ?L)" by auto
  have ddist: "distinct (node_ids ?L)" by (rule revealed_distinct[OF ddist0])
  have run: "expand N False dv = Inr ?dv'"
    using expand_touch[OF assms(2), of False] assms(1) by simp
  have idseq: "ids ?dv' = ids dv"
    by (simp add: ids_touch ids_hit idp_revealItem idp_expandSelf)
  from in_store_lookup[OF st, of N] obtain it0 where
    it0: "getItemById dv (Some (nid (info N))) = Some it0"
    by (auto simp: nodes_unfold)
  have "getItemById ?dv' (Some (nid (info N))) = getItemById ?dv1 (Some (nid (info N)))"
    by (rule touch_lookup_other[OF idp_revealItem notin])
  then have own: "getItemById ?dv' (Some (nid (info N))) = Some (expandSelf N False it0)"
    using it0 by (simp add: hit_lookup idp_expandSelf)
  have f1: "js_get (expandSelf N False it0) ''_collapsed'' = Some (Bool False)"
    and f2: "js_get (expandSelf N False it0) ''_hidden'' = Some (Bool False)"
    and f3: "collapseFilter (expandSelf N False it0)"
    using assms(1) by (simp_all add: expandSelf_def js_get_set collapseFilter_def)
  have kids: "set (children N) \<subseteq> set ?L"
    using reached_head by (fastforce simp: revealed_def)
  have desc: "\<forall>m \<in> set ?L. \<exists>d0 d'.
              getItemById dv (Some (nid (info m))) = Some d0 \<and>
              getItemById ?dv' (Some (nid (info m))) = Some d' \<and>
              js_get d' ''_hidden'' = Some (Bool False) \<and> collapseFilter d' \<and>
              (cls (info m) = TreeC \<longrightarrow> js_get d' ''_collapsed'' = js_get d0 ''_collapsed'') \<and>
              (cls (info m) = LeafC \<longrightarrow> js_get d' ''_collapsed'' = Some (Bool False))"
  proof
    fix m assume m: "m \<in> set ?L"
    with revealed_subset[of dv N] have "m \<in> set (nodes N)" by (auto simp: nodes_unfold)
    from in_store_lookup[OF st this] obtain d0 where
      d0: "getItemById dv (Some (nid (info m))) = Some d0" by blast
    from node_ids_mem[OF m] notin have ne: "nid (info m) \<noteq> nid (info N)" by auto
    have "getItemById ?dv' (Some (nid (info m))) =
            map_option (revealItem m) (getItemById ?dv1 (Some (nid (info m))))"
      by (rule touch_lookup_in[OF idp_revealItem ddist m])
    then have "getItemById ?dv' (Some (nid (info m))) = Some (revealItem m d0)"
      using d0 ne by (simp add: hit_lookup idp_expandSelf)
    with d0 show "\<exists>d0 d'.
              getItemById dv (Some (nid (info m))) = Some d0 \<and>
              getItemById ?dv' (Some (nid (info m))) = Some d' \<and>
              js_get d' ''_hidden'' = Some (Bool False) \<and> collapseFilter d' \<and>
              (cls (info m) = TreeC \<longrightarrow> js_get d' ''_collapsed'' = js_get d0 ''_collapsed'') \<and>
              (cls (info m) = LeafC \<longrightarrow> js_get d' ''_collapsed'' = Some (Bool False))"
      by (simp add: revealItem_flags collapseFilter_def)
  qed
  have other: "\<forall>k. k \<noteq> nid (info N) \<longrightarrow> k \<notin> set (node_ids ?L) \<longrightarrow>
              getItemById ?dv' (Some k) = getItemById dv (Some k)"
  proof (intro allI impI)
    fix k assume k2: "k \<noteq> nid (info N)" and k1: "k \<notin> set (node_ids ?L)"
    have "getItemById ?dv' (Some k) = getItemById ?dv1 (Some k)"
      by (rule touch_lookup_other[OF idp_revealItem k1])
    with k2 show "getItemById ?dv' (Some k) = getItemById dv (Some k)"
      by (simp add: hit_lookup idp_expandSelf)
  qed
  have stop: "\<forall>m \<in> set ?L. marked_collapsed dv m \<longrightarrow>
              (\<forall>d \<in> set (descendants m).
                 getItemById ?dv' (Some (nid (info d))) = getItemById dv (Some (nid (info d))))"
  proof (intro ballI impI)
    fix m d assume "m \<in> set ?L" "marked_collapsed dv m" "d \<in> set (descendants m)"
    from below_collapsed_not_revealed[OF dist this] other
    show "getItemById ?dv' (Some (nid (info d))) = getItemById dv (Some (nid (info d)))"
      by blast
  qed
  show ?thesis
    by (intro exI[of _ ?dv'] exI[of _ it0] exI[of _ "expandSelf N False it0"]
        conjI run idseq it0 own f1 f2 f3 kids desc other stop)
qed

lemma collapsed_store_is_collapse:
  "collapse docs_node False (store scenario_grid) = Inr collapsed_store"
  by (simp add: docs_node_def scenario_grid_def getItem_def getIdxById_def js_get_def
      setProps_def js_set_def collapsed_store_def)

lemma expand_collapsed_store:
  "expand docs_node False collapsed_store =
     Inr [[(''depth'', Num 1), (''_node'', Ref 1), (''parentID'', Str ''root''),
           (''id'', Num 0), (''kind'', Str ''folder''), (''name'', Str ''docs''),
           (''_collapsed'', Bool False), (''_hidden'', Bool False)],
          [(''depth'', Num 2), (''_node'', Ref 2), (''parentID'', Num 0),
           (''id'', Num 1), (''kind'', Str ''file''), (''name'', Str ''a.txt''),
           (''_hidden'', Bool False), (''_collapsed'', Bool False)],
          [(''depth'', Num 1), (''_node'', Ref 3), (''parentID'', Str ''root''),
           (''id'', Num 2), (''kind'', Str ''file''), (''name'', Str ''b.txt'')]]"
  by (simp add: docs_node_def collapsed_store_def getItem_def getIdxById_def js_get_def
      setProps_def js_set_def)

theorem expand_reveals_children_witness:
  "cls (info docs_node) = TreeC \<and> materialized docs_node collapsed_store \<and>
   (\<exists>dv'. expand docs_node False collapsed_store = Inr dv' \<and>
      row_names (visibleRows collapsed_store) = [Some (Str ''docs''), Some (Str ''b.txt'')] \<and>
      row_names (visibleRows dv') =
        [Some (Str ''docs''), Some (Str ''a.txt''), Some (Str ''b.txt'')])"
proof -
  have h1: "cls (info docs_node) = TreeC" by (simp add: docs_node_def)
  have h2: "materialized docs_node collapsed_store"
    by (simp add: materialized_def in_store_def node_ids_def docs_node_def collapsed_store_def
        js_get_def)
  from expand_reveals_children[OF h1 h2] obtain dv' where
    r: "expand docs_node False collapsed_store = Inr dv'"
    by (elim exE conjE)
  with expand_collapsed_store
  have "row_names (visibleRows dv') =
          [Some (Str ''docs''), Some (Str ''a.txt''), Some (Str ''b.txt'')]"
    by (auto simp: row_names_def visibleRows_def collapseFilter_def js_get_def)
  moreover have "row_names (visibleRows collapsed_store) =
                   [Some (Str ''docs''), Some (Str ''b.txt'')]"
    by (simp add: row_names_def visibleRows_def collapseFilter_def js_get_def
        collapsed_store_def)
  ultimately show ?thesis using h1 h2 r by blast
qed

text \<open>
  C3, as the specification states it, fails for a child that is a file: after \<open>docs\<close>
  was collapsed, the item of \<open>a.txt\<close> has \<open>_collapsed = true\<close>, and expanding
  \<open>docs\<close> sets it to false.
\<close>

theorem expand_resets_collapsed_of_file:
  "(case collapse docs_node False (store scenario_grid) of
      Inl e \<Rightarrow> None
    | Inr dv1 \<Rightarrow>
        (case expand docs_node False dv1 of
           Inl e \<Rightarrow> None
         | Inr dv2 \<Rightarrow>
             Some (map_option (\<lambda>it. js_get it ''_collapsed'') (getItemById dv1 (Some (Num 1))),
                   map_option (\<lambda>it. js_get it ''_collapsed'') (getItemById dv2 (Some (Num 1))))))
   = Some (Some (Some (Bool True)), Some (Some (Bool False)))"
  by (simp add: collapsed_store_is_collapse expand_collapsed_store)
     (simp add: collapsed_store_def getItemById_def getIdxById_def js_get_def)


section \<open>Expanding twice\<close>

lemma js_set_triv: "js_get ob k = Some v \<Longrightarrow> js_set k v ob = ob"
  by (simp add: js_get_def js_set_def AList.update_triv)

lemma revealItem_idem: "revealItem m (revealItem m it) = revealItem m it"
  by (simp add: revealItem_def js_set_triv js_get_set split: cls.splits)

lemma expandSelf_idem: "expandSelf m nf (expandSelf m nf it) = expandSelf m nf it"
  by (simp add: expandSelf_def js_set_triv js_get_set split: cls.splits)

lemma hit_fix:
  assumes "getItemById dv (Some (nid (info m))) = Some it" and "f it = it"
  shows "hit f m dv = dv"
proof -
  from assms(1) obtain ix where ix: "idx_of (nid (info m)) dv = Some ix" "dv ! ix = it"
    by (auto simp: getItemById_def getIdxById_def)
  have "dv[ix := it] = dv" using ix(2) list_update_id[of dv ix] by simp
  with ix assms(2) show ?thesis by (simp add: hit_def setProps_def)
qed

lemma touch_fix: "(\<And>m. m \<in> set ms \<Longrightarrow> hit (g m) m dv = dv) \<Longrightarrow> touch g ms dv = dv"
  by (induction ms) (simp_all add: touch_def)

text \<open>
  C8. For a node \<open>F\<close> whose subtree is materialized in the store, \<^verbatim>\<open>expand()\<close>
  succeeds, and a second \<^verbatim>\<open>expand()\<close> right after it succeeds and leaves the store
  exactly as the first call left it; so the visible rows are the same.
\<close>

theorem expand_twice_same_rows:
  assumes "materialized F dv"
  shows "\<exists>dv1 dv2. expand F False dv = Inr dv1 \<and> expand F False dv1 = Inr dv2 \<and>
           dv2 = dv1 \<and> visibleRows dv2 = visibleRows dv1"
proof -
  from assms have st: "in_store F dv" and dist: "distinct (node_ids (nodes F))"
    by (simp_all add: materialized_def)
  define L where "L = (if cls (info F) = TreeC then revealed dv F else [])"
  let ?dv0 = "hit (expandSelf F False) F dv"
  let ?dv1 = "touch revealItem L ?dv0"
  from dist have notin0: "nid (info F) \<notin> set (node_ids (descendants F))"
    and ddist0: "distinct (node_ids (descendants F))"
    by (simp_all add: nodes_unfold)
  have Lsub: "set L \<subseteq> set (descendants F)"
    using revealed_subset[of dv F] by (auto simp: L_def)
  then have sub: "set (node_ids L) \<subseteq> set (node_ids (descendants F))"
    by (auto simp: node_ids_def)
  from notin0 sub have notin: "nid (info F) \<notin> set (node_ids L)" by auto
  have ddist: "distinct (node_ids L)"
    using revealed_distinct[OF ddist0, of dv] by (simp add: L_def)
  have run1: "expand F False dv = Inr ?dv1"
    using expand_touch[OF assms, of False] by (simp add: L_def)
  have idseq: "ids ?dv1 = ids dv"
    by (simp add: ids_touch ids_hit idp_revealItem idp_expandSelf)
  have mat1: "materialized F ?dv1"
    using materialized_ids[OF idseq] assms by simp
  from in_store_lookup[OF st, of F] obtain it0 where
    it0: "getItemById dv (Some (nid (info F))) = Some it0"
    by (auto simp: nodes_unfold)
  have "getItemById ?dv1 (Some (nid (info F))) = getItemById ?dv0 (Some (nid (info F)))"
    by (rule touch_lookup_other[OF idp_revealItem notin])
  then have own: "getItemById ?dv1 (Some (nid (info F))) = Some (expandSelf F False it0)"
    using it0 by (simp add: hit_lookup idp_expandSelf)
  have look: "getItemById ?dv1 (Some (nid (info m))) =
                map_option (revealItem m) (getItemById dv (Some (nid (info m))))"
    if m: "m \<in> set L" for m
  proof -
    from node_ids_mem[OF m] notin have ne: "nid (info m) \<noteq> nid (info F)" by auto
    have "getItemById ?dv1 (Some (nid (info m))) =
            map_option (revealItem m) (getItemById ?dv0 (Some (nid (info m))))"
      by (rule touch_lookup_in[OF idp_revealItem ddist m])
    with ne show ?thesis by (simp add: hit_lookup idp_expandSelf)
  qed
  have mark: "marked_collapsed ?dv1 m = marked_collapsed dv m"
    if m: "m \<in> set (descendants F)" and tr: "cls (info m) = TreeC" for m
  proof (cases "nid (info m) \<in> set (node_ids L)")
    case True
    then obtain x where x: "x \<in> set L" "nid (info x) = nid (info m)"
      by (auto simp: node_ids_def)
    from x(1) Lsub have "x \<in> set (descendants F)" by auto
    from node_inj[OF ddist0 this m x(2)] x(1) have "m \<in> set L" by simp
    from look[OF this] tr show ?thesis
      by (cases "getItemById dv (Some (nid (info m)))")
         (simp_all add: marked_collapsed_def revealItem_flags)
  next
    case False
    from node_ids_mem[OF m] notin0 have ne: "nid (info m) \<noteq> nid (info F)" by auto
    have "getItemById ?dv1 (Some (nid (info m))) = getItemById ?dv0 (Some (nid (info m)))"
      by (rule touch_lookup_other[OF idp_revealItem False])
    with ne have "getItemById ?dv1 (Some (nid (info m))) = getItemById dv (Some (nid (info m)))"
      by (simp add: hit_lookup idp_expandSelf)
    then show ?thesis by (rule marked_collapsed_cong)
  qed
  have same: "revealed ?dv1 F = revealed dv F"
    unfolding revealed_def
  proof (intro arg_cong[where f = concat] map_cong refl reached_cong)
    fix c m assume c: "c \<in> set (children F)" and m: "m \<in> set (nodes c)"
      and ch: "children m \<noteq> []"
    from c m have md: "m \<in> set (descendants F)" by (auto simp: descendants_def)
    then have "m \<in> set (nodes F)" by (simp add: nodes_unfold)
    with st have "cls (info m) \<noteq> LeafC \<or> children m = []"
      by (auto simp: in_store_def list_all_iff)
    with ch have "cls (info m) = TreeC" by (cases "cls (info m)") auto
    with md show "marked_collapsed ?dv1 m = marked_collapsed dv m" by (rule mark)
  qed
  have e2: "expand F False ?dv1 =
              Inr (touch revealItem (if cls (info F) = TreeC then revealed ?dv1 F else [])
                     (hit (expandSelf F False) F ?dv1))"
    using expand_touch[OF mat1, of False] by simp
  have "(if cls (info F) = TreeC then revealed ?dv1 F else []) = L"
    using same unfolding L_def by (cases "cls (info F)") simp_all
  with e2 have run2:
    "expand F False ?dv1 = Inr (touch revealItem L (hit (expandSelf F False) F ?dv1))"
    by (simp only:)
  have fix0: "hit (expandSelf F False) F ?dv1 = ?dv1"
    by (rule hit_fix[where f = "expandSelf F False", OF own]) (rule expandSelf_idem)
  have fix1: "touch revealItem L ?dv1 = ?dv1"
  proof (rule touch_fix)
    fix m assume m: "m \<in> set L"
    with Lsub have "m \<in> set (nodes F)" by (auto simp: nodes_unfold)
    from in_store_lookup[OF st this] obtain d0 where
      "getItemById dv (Some (nid (info m))) = Some d0" by blast
    with look[OF m] have "getItemById ?dv1 (Some (nid (info m))) = Some (revealItem m d0)"
      by simp
    then show "hit (revealItem m) m ?dv1 = ?dv1"
      by (rule hit_fix[where f = "revealItem m"]) (rule revealItem_idem)
  qed
  have "expand F False ?dv1 = Inr ?dv1"
    unfolding run2 fix0 fix1 ..
  with run1 show ?thesis by blast
qed

theorem expand_twice_same_rows_witness:
  "materialized docs_node collapsed_store \<and>
   (\<exists>dv1 dv2. expand docs_node False collapsed_store = Inr dv1 \<and>
      expand docs_node False dv1 = Inr dv2 \<and> dv2 = dv1 \<and>
      visibleRows dv2 = visibleRows dv1 \<and>
      row_names (visibleRows dv2) =
        [Some (Str ''docs''), Some (Str ''a.txt''), Some (Str ''b.txt'')])"
proof -
  have h: "materialized docs_node collapsed_store"
    by (simp add: materialized_def in_store_def node_ids_def docs_node_def collapsed_store_def
        js_get_def)
  from expand_twice_same_rows[OF h] obtain dv1 dv2 where
    r: "expand docs_node False collapsed_store = Inr dv1" "expand docs_node False dv1 = Inr dv2"
       "dv2 = dv1" "visibleRows dv2 = visibleRows dv1"
    by (elim exE conjE)
  from r(1,3) expand_collapsed_store
  have "row_names (visibleRows dv2) =
          [Some (Str ''docs''), Some (Str ''a.txt''), Some (Str ''b.txt'')]"
    by (auto simp: row_names_def visibleRows_def collapseFilter_def js_get_def)
  with h r show ?thesis by blast
qed

section \<open>Errors\<close>

lemma isHGridError_simps [simp]:
  "isHGridError (Inl (HGridError m)) = True"
  "isHGridError (Inl TypeError) = False"
  "isHGridError (Inl InvalidId) = False"
  "isHGridError (Inr x) = False"
  by (simp_all add: isHGridError_def)

lemma fromObject_array_succeeds:
  "\<exists>root st'. fromObject (DArr H) parent st = Inr (root, st') \<and>
      cls (info root) = TreeC \<and> dataView (info root)"
proof -
  obtain r0 s1 where nt: "newTree None st = (r0, s1)" by (cases "newTree None st")
  then have r0: "cls (info r0) = TreeC" "dataView (info r0)" "children r0 = []"
    by (auto simp: newTree_def)
  from fromObject_loop_shape[of H r0 s1, OF fromObject_obj_shape] obtain new st' where
    "fromObject_loop H r0 s1 = Inr (Node (info r0) (children r0 @ new), st')"
    by blast
  with nt r0 show ?thesis by simp
qed

lemma no_HGridError_bind:
  assumes "\<not> isHGridError r" and "\<And>x. r = Inr x \<Longrightarrow> \<not> isHGridError (f x)"
  shows "\<not> isHGridError (case r of Inl e \<Rightarrow> Inl e | Inr x \<Rightarrow> f x)"
  using assms by (cases r) (auto simp: isHGridError_def split: error.splits)

lemma fromObject_loop_succeeds: "\<exists>r. fromObject_loop cs tr st = Inr r"
  using fromObject_loop_shape[of cs tr st, OF fromObject_obj_shape] by blast

lemma fromObject_no_HGridError: "\<not> isHGridError (fromObject d parent st)"
proof (cases d)
  case (DArr H)
  with fromObject_array_succeeds[of H parent st] show ?thesis by auto
next
  case (DObj h)
  show ?thesis
  proof (cases parent)
    case None
    with DObj show ?thesis by (cases h) simp
  next
    case (Some par)
    with DObj fromObject_obj_shape[of h par st] show ?thesis by auto
  qed
qed

lemma fromObject_loop_no_HGridError: "\<not> isHGridError (fromObject_loop cs tr st)"
  using fromObject_loop_succeeds[of cs tr st] by auto

lemma collapse_no_HGridError:
  "\<not> isHGridError (collapse n hs dv)"
  "\<not> isHGridError (collapse_children cs dv)"
proof (induction n hs dv and cs dv rule: collapse_collapse_children.induct)
  case (1 i cs hideSelf dv)
  show ?case
  proof (cases "getItem (Node i cs) dv")
    case (Inl e)
    then show ?thesis by (auto simp: getItem_def split: if_splits)
  next
    case (Inr r)
    show ?thesis
    proof (cases r)
      case None
      with Inr show ?thesis by simp
    next
      case (Some ix)
      show ?thesis
      proof (cases "cls i")
        case LeafC
        with Inr Some show ?thesis by simp
      next
        case TreeC
        from "1"[OF Inr Some TreeC] Inr Some TreeC show ?thesis by simp
      qed
    qed
  qed
next
  case (2 dv)
  then show ?case by simp
next
  case (3 c cs dv)
  show ?case
    unfolding collapse_children.simps
    by (rule no_HGridError_bind) (use 3 in simp_all)
qed

lemma expand_no_HGridError:
  "\<not> isHGridError (expand n nf dv)"
  "\<not> isHGridError (expand_children cs ix dv)"
proof (induction n nf dv and cs ix dv rule: expand_expand_children.induct)
  case (1 i cs notFirst dv)
  show ?case
  proof (cases "getItem (Node i cs) dv")
    case (Inl e)
    then show ?thesis by (auto simp: getItem_def split: if_splits)
  next
    case (Inr r)
    show ?thesis
    proof (cases r)
      case None
      with Inr show ?thesis by simp
    next
      case (Some ix)
      show ?thesis
      proof (cases "cls i")
        case LeafC
        with Inr Some show ?thesis by simp
      next
        case TreeC
        from "1"[OF Inr Some TreeC] Inr Some TreeC show ?thesis by simp
      qed
    qed
  qed
next
  case (2 ix dv)
  then show ?case by simp
next
  case (3 c cs ix dv)
  show ?case
  proof (cases "truthy (js_get (dv ! ix) ''_collapsed'')")
    case True
    with 3 show ?thesis by simp
  next
    case False
    have "\<not> isHGridError (case expand c True dv of Inl e \<Rightarrow> Inl e
                            | Inr dv' \<Rightarrow> expand_children cs ix dv')"
      by (rule no_HGridError_bind) (use 3 False in simp_all)
    with False show ?thesis by simp
  qed
qed

lemma insertIntoDataView_no_HGridError: "\<not> isHGridError (insertIntoDataView this c dv)"
  by (simp add: insertIntoDataView_def split: projection.splits)

lemma add_no_HGridError: "\<not> isHGridError (add this c u dv)"
proof (cases "cls (info this)")
  case LeafC
  then show ?thesis by (simp add: add_def)
next
  case TreeC
  have "\<not> isHGridError (case insertIntoDataView (attach this c) (adopt this c) dv of
                          Inl e \<Rightarrow> Inl e | Inr dv' \<Rightarrow> Inr (attach this c, dv'))"
    by (rule no_HGridError_bind) (simp_all add: insertIntoDataView_no_HGridError)
  with TreeC show ?thesis by (simp add: add_def Let_def)
qed

lemma getNodeByID_no_HGridError: "\<not> isHGridError (getNodeByID g k)"
  by (simp add: getNodeByID_def split: option.splits jsval.splits)

lemma removeItem_no_HGridError: "\<not> isHGridError (removeItem g k)"
  by (simp add: removeItem_def deleteItem_def Let_def split: option.splits)

lemma addItem_no_HGridError: "\<not> isHGridError (addItem g item)"
proof -
  obtain node c' where n: "(if js_get item ''kind'' = Some FOLDER then newTree (Some item) (ctr g)
             else newLeaf item (ctr g)) = (node, c')"
    by (cases "if js_get item ''kind'' = Some FOLDER then newTree (Some item) (ctr g)
             else newLeaf item (ctr g)")
  let ?pn = "if eq_null (js_get item ''parentID'') then Inr (tree g)
             else getNodeByID g (js_get item ''parentID'')"
  have pn: "\<not> isHGridError ?pn" by (simp add: getNodeByID_no_HGridError)
  have "\<not> isHGridError (case ?pn of Inl e \<Rightarrow> Inl e
          | Inr parentNode \<Rightarrow>
             (case add parentNode node True (store g) of
                Inl e \<Rightarrow> Inl e
              | Inr (parentNode', dv') \<Rightarrow>
                  Inr (getItemById dv' (Some (nid (info node))),
                       \<lparr>tree = replace_node (addr (info parentNode)) parentNode' (tree g),
                        store = dv', ctr = c'\<rparr>)))"
  proof (rule no_HGridError_bind[OF pn])
    fix x
    show "\<not> isHGridError (case add x node True (store g) of
                Inl e \<Rightarrow> Inl e
              | Inr (parentNode', dv') \<Rightarrow>
                  Inr (getItemById dv' (Some (nid (info node))),
                       \<lparr>tree = replace_node (addr (info x)) parentNode' (tree g),
                        store = dv', ctr = c'\<rparr>))"
      by (rule no_HGridError_bind) (simp_all add: add_no_HGridError split: prod.splits)
  qed
  with n show ?thesis by (simp add: addItem_def)
qed

lemma addItems_no_HGridError: "\<not> isHGridError (addItems g items)"
proof (induction items arbitrary: g)
  case Nil
  then show ?case by simp
next
  case (Cons item items)
  show ?case
    unfolding addItems.simps
    by (rule no_HGridError_bind) (simp_all add: addItem_no_HGridError Cons split: prod.splits)
qed

lemma removeItems_no_HGridError: "\<not> isHGridError (removeItems g items)"
proof (induction items arbitrary: g)
  case Nil
  then show ?case by simp
next
  case (Cons item items)
  show ?case
    unfolding removeItems.simps
    by (rule no_HGridError_bind) (simp_all add: removeItem_no_HGridError Cons split: prod.splits)
qed

lemma onMoveRows_no_HGridError: "\<not> isHGridError (onMoveRows g rs ft)"
proof (cases ft)
  case None
  then show ?thesis by (simp add: onMoveRows_def)
next
  case (Some G)
  have "\<not> isHGridError (case removeItems g its of Inl e \<Rightarrow> Inl e
                          | Inr g' \<Rightarrow> addItems g' its2)" for its its2
    by (rule no_HGridError_bind)
       (simp_all add: removeItems_no_HGridError addItems_no_HGridError)
  with Some show ?thesis by (simp add: onMoveRows_def Let_def)
qed


lemma init_HGridError: "isHGridError (init g opts dropzone) \<longleftrightarrow> opt_uploads opts \<and> \<not> dropzone"
  by (simp add: init_def)

lemma updateDataView_HGridError:
  "isHGridError (updateDataView this dv) \<longleftrightarrow> cls (info this) = TreeC \<and> \<not> dataView (info this)"
  by (simp add: updateDataView_def Let_def split: cls.splits)

lemma HGrid_HGridError:
  "isHGridError (HGrid opts dropzone st) \<longleftrightarrow>
     (opt_data opts \<noteq> None \<and> truthy (opt_ajaxSource opts)) \<or> (opt_uploads opts \<and> \<not> dropzone)"
proof (cases "opt_data opts \<noteq> None \<and> truthy (opt_ajaxSource opts)")
  case True
  then show ?thesis by (simp add: HGrid_def)
next
  case False
  show ?thesis
  proof (cases "opt_data opts")
    case None
    with False show ?thesis
      by (simp add: HGrid_def init_HGridError split: prod.splits)
  next
    case (Some d)
    from fromObject_array_succeeds[of d None st] obtain root st' where
      r: "fromObject (DArr d) None st = Inr (root, st')" "cls (info root) = TreeC"
         "dataView (info root)"
      by blast
    then have "updateDataView root [] =
                 Inr (ensureDataView root False, setItems [] (toData_into (ensureDataView root False) []))"
      by (simp add: updateDataView_def Let_def)
    with False Some r(1) show ?thesis
      by (simp add: HGrid_def init_HGridError)
  qed
qed

text \<open>
  C7. An \<^verbatim>\<open>HGridError\<close> is raised in exactly three cases. The constructor raises it
  when both \<open>data\<close> and a truthy \<open>ajaxSource\<close> are given, or (from \<^verbatim>\<open>init\<close>)
  when uploads are enabled and \<^verbatim>\<open>Dropzone\<close> is not defined; \<^verbatim>\<open>updateDataView\<close>
  raises it on a Tree without a store. No other operation of the tree, the store or the
  grid raises it: their failures are TypeErrors or the store's own error.
\<close>

theorem HGridError_raised_in_three_cases:
  "(isHGridError (HGrid opts dropzone st) \<longleftrightarrow>
      (opt_data opts \<noteq> None \<and> truthy (opt_ajaxSource opts)) \<or> (opt_uploads opts \<and> \<not> dropzone)) \<and>
   (isHGridError (init g opts dropzone) \<longleftrightarrow> opt_uploads opts \<and> \<not> dropzone) \<and>
   (isHGridError (updateDataView this dv) \<longleftrightarrow>
      cls (info this) = TreeC \<and> \<not> dataView (info this)) \<and>
   HGrid \<lparr>opt_data = Some H, opt_ajaxSource = Some (Str (c # cs)), opt_uploads = u\<rparr> dropzone st =
     Inl (HGridError ''Cannot specify both \"data\" and \"ajaxSource\"'') \<and>
   \<not> isHGridError (fromObject d parent st) \<and>
   \<not> isHGridError (add this n sync dv) \<and>
   \<not> isHGridError (insertIntoDataView this n dv) \<and>
   \<not> isHGridError (getItem n dv) \<and>
   \<not> isHGridError (collapse n hideSelf dv) \<and>
   \<not> isHGridError (expand n notFirst dv) \<and>
   \<not> isHGridError (deleteItem dv k) \<and>
   \<not> isHGridError (getNodeByID g k) \<and>
   \<not> isHGridError (addItem g item) \<and>
   \<not> isHGridError (addItems g items) \<and>
   \<not> isHGridError (removeItem g k) \<and>
   \<not> isHGridError (onMoveRows g rs folderTarget)"
proof -
  have a: "HGrid \<lparr>opt_data = Some H, opt_ajaxSource = Some (Str (c # cs)), opt_uploads = u\<rparr>
             dropzone st =
           Inl (HGridError ''Cannot specify both \"data\" and \"ajaxSource\"'')"
    by (simp add: HGrid_def)
  have b: "\<not> isHGridError (getItem n dv)" by (simp add: getItem_def)
  have c: "\<not> isHGridError (deleteItem dv k)"
    by (simp add: deleteItem_def split: option.splits)
  show ?thesis
    by (intro conjI HGrid_HGridError init_HGridError updateDataView_HGridError a b c
        fromObject_no_HGridError add_no_HGridError insertIntoDataView_no_HGridError
        collapse_no_HGridError(1) expand_no_HGridError(1) getNodeByID_no_HGridError
        addItem_no_HGridError addItems_no_HGridError removeItem_no_HGridError
        onMoveRows_no_HGridError)
qed

end
